theory Spec2Isabelle
  imports Complex_Main
begin

section \<open>Arrays, errors and the array primitives the code calls\<close>

text \<open>
  The repository computes with TensorFlow tensors and NumPy arrays. An array is modelled
  as its shape together with the function from a multi-index to the entry stored there;
  only entries at in-range indices are meaningful. Floating-point numbers are modelled
  as real numbers (exact arithmetic). Every exception the code can raise is a value of
  the type \<open>error\<close>, and a function that can raise returns \<open>error + 'a\<close>.
\<close>

datatype error =
    InvalidArgumentError
  | ValueError string
  | ZeroDivisionError
  | IndexError
  | AxisError
  | AttributeError

record 'a ndarray =
  shape :: "nat list"
  item :: "nat list \<Rightarrow> 'a"

definition ebind :: "error + 'a \<Rightarrow> ('a \<Rightarrow> error + 'b) \<Rightarrow> error + 'b" where
  "ebind m f = (case m of Inl e \<Rightarrow> Inl e | Inr x \<Rightarrow> f x)"

text \<open>\<open>tf.zeros(s)\<close> and \<open>tf.fill(s, v)\<close>.\<close>

definition full :: "nat list \<Rightarrow> 'a \<Rightarrow> 'a ndarray" where
  "full s v = \<lparr>shape = s, item = (\<lambda>idx. v)\<rparr>"

definition zeros :: "nat list \<Rightarrow> real ndarray" where
  "zeros s = full s 0"

text \<open>Row-major position of a multi-index, and \<open>np.array(data).reshape(s)\<close>.\<close>

fun ravel :: "nat list \<Rightarrow> nat list \<Rightarrow> nat \<Rightarrow> nat" where
  "ravel (d # ds) (i # is) acc = ravel ds is (acc * d + i)"
| "ravel ds is acc = acc"

definition np_array :: "nat list \<Rightarrow> 'a list \<Rightarrow> 'a ndarray" where
  "np_array s xs = \<lparr>shape = s, item = (\<lambda>idx. xs ! ravel s idx 0)\<rparr>"

subsection \<open>Broadcasting\<close>

definition bdim :: "nat \<Rightarrow> nat \<Rightarrow> nat option" where
  "bdim a b = (if a = b then Some a else if a = 1 then Some b
               else if b = 1 then Some a else None)"

fun bshape_rev :: "nat list \<Rightarrow> nat list \<Rightarrow> nat list option" where
  "bshape_rev [] ys = Some ys"
| "bshape_rev (x # xs) [] = Some (x # xs)"
| "bshape_rev (x # xs) (y # ys) =
     (case bdim x y of None \<Rightarrow> None
      | Some d \<Rightarrow> map_option ((#) d) (bshape_rev xs ys))"

text \<open>Shapes are aligned at their last axis; a missing or 1-sized axis stretches.\<close>

definition broadcast_shapes :: "nat list \<Rightarrow> nat list \<Rightarrow> nat list option" where
  "broadcast_shapes s t = map_option rev (bshape_rev (rev s) (rev t))"

text \<open>The index into an operand of shape \<open>s\<close> that a result index \<open>idx\<close> reads.\<close>

definition bindex :: "nat list \<Rightarrow> nat list \<Rightarrow> nat list" where
  "bindex s idx =
     map2 (\<lambda>d i. if d = 1 then 0 else i) s (drop (length idx - length s) idx)"

subsection \<open>Elementwise operations\<close>

definition tmap :: "('a \<Rightarrow> 'b) \<Rightarrow> 'a ndarray \<Rightarrow> 'b ndarray" where
  "tmap f T = \<lparr>shape = shape T, item = (\<lambda>idx. f (item T idx))\<rparr>"

text \<open>\<open>A + B\<close> with broadcasting; incompatible shapes raise.\<close>

definition tadd :: "real ndarray \<Rightarrow> real ndarray \<Rightarrow> error + real ndarray" where
  "tadd A B =
     (case broadcast_shapes (shape A) (shape B) of
        None \<Rightarrow> Inl InvalidArgumentError
      | Some s \<Rightarrow> Inr \<lparr>shape = s,
            item = (\<lambda>idx. item A (bindex (shape A) idx) + item B (bindex (shape B) idx))\<rparr>)"

text \<open>Python's \<open>a / b\<close> on a float and an int: a zero divisor raises.\<close>

definition py_truediv :: "real \<Rightarrow> nat \<Rightarrow> error + real" where
  "py_truediv a b = (if b = 0 then Inl ZeroDivisionError else Inr (a / real b))"

subsection \<open>Matrix operations on the last two axes\<close>

definition swap_last2 :: "'a list \<Rightarrow> 'a list" where
  "swap_last2 xs = take (length xs - 2) xs @ [xs ! (length xs - 1), xs ! (length xs - 2)]"

text \<open>\<open>tf.linalg.matrix_transpose\<close>: needs rank at least 2.\<close>

definition matrix_transpose :: "'a ndarray \<Rightarrow> error + 'a ndarray" where
  "matrix_transpose T =
     (if length (shape T) < 2 then Inl (ValueError ''rank'')
      else Inr \<lparr>shape = swap_last2 (shape T), item = (\<lambda>idx. item T (swap_last2 idx))\<rparr>)"

text \<open>
  \<open>A @ B\<close> (\<open>tf.matmul\<close>): both of rank at least 2, inner sizes equal, the leading
  (batch) axes broadcast.
\<close>

definition matmul :: "real ndarray \<Rightarrow> real ndarray \<Rightarrow> error + real ndarray" where
  "matmul A B =
     (let ra = length (shape A); rb = length (shape B) in
      if ra < 2 \<or> rb < 2 then Inl InvalidArgumentError
      else if shape A ! (ra - 1) \<noteq> shape B ! (rb - 2) then Inl InvalidArgumentError
      else case broadcast_shapes (take (ra - 2) (shape A)) (take (rb - 2) (shape B)) of
        None \<Rightarrow> Inl InvalidArgumentError
      | Some bs \<Rightarrow> Inr \<lparr>shape = bs @ [shape A ! (ra - 2), shape B ! (rb - 1)],
          item = (\<lambda>idx.
            let r = length idx; bi = take (r - 2) idx; i = idx ! (r - 2); j = idx ! (r - 1) in
            (\<Sum>k<shape A ! (ra - 1).
               item A (bindex (take (ra - 2) (shape A)) bi @ [i, k]) *
               item B (bindex (take (rb - 2) (shape B)) bi @ [k, j])))\<rparr>)"

section \<open>Feature Mapper: \<open>fourier_features\<close>\<close>

text \<open>
  \<^verbatim>\<open>
  D = W.shape[1]
  WX_b = W @ tf.linalg.matrix_transpose(X) + b
  return tf.cast(tf.sqrt(2.0 / D), dtype=tf.float64) * tf.cos(tf.linalg.matrix_transpose(WX_b))
  \<close>
  \<open>W.shape[1]\<close> is a Python int, so \<open>2.0 / D\<close> is Python's division.
\<close>

definition fourier_features ::
  "real ndarray \<Rightarrow> real ndarray \<Rightarrow> real ndarray \<Rightarrow> error + real ndarray" where
  "fourier_features X W b =
     (if length (shape W) < 2 then Inl IndexError
      else let D = shape W ! 1 in
        ebind (matrix_transpose X) (\<lambda>XT.
        ebind (matmul W XT) (\<lambda>WX.
        ebind (tadd WX b) (\<lambda>WX_b.
        ebind (py_truediv 2 D) (\<lambda>q.
        ebind (matrix_transpose WX_b) (\<lambda>T.
        Inr (tmap (\<lambda>v. sqrt q * v) (tmap cos T))))))))"

section \<open>Feature Sampler: \<open>sample_fourier_features\<close>\<close>

text \<open>
  What \<open>k.lengthscale.numpy()\<close> returns: a scalar, or a one-dimensional array when the
  kernel has one lengthscale per input dimension.
\<close>

datatype npval = NpScalar real | NpVector "real list"

text \<open>
  A gpflow kernel: one with a lengthscale (such as the RBF kernel), or a
  \<open>gpflow.kernels.base.Product\<close> of kernels, whose factors are \<open>kernel.kernels\<close>.
\<close>

datatype kernel = Stationary npval | Product "kernel list"

text \<open>\<open>k.lengthscale\<close>: a product kernel has no such attribute.\<close>

definition get_lengthscale :: "kernel \<Rightarrow> error + npval" where
  "get_lengthscale k = (case k of Stationary v \<Rightarrow> Inr v | Product ks \<Rightarrow> Inl AttributeError)"

text \<open>
  \<open>lengthscales[i] = lengthscale_val\<close> stores into one slot of a float array: a scalar
  or a one-element array fits, any other array raises.
\<close>

definition as_element :: "npval \<Rightarrow> error + real" where
  "as_element v =
     (case v of NpScalar x \<Rightarrow> Inr x
      | NpVector xs \<Rightarrow>
          (case xs of [x] \<Rightarrow> Inr x
           | _ \<Rightarrow> Inl (ValueError ''setting an array element with a sequence.'')))"

text \<open>
  \<^verbatim>\<open>
  for i in range(input_dims):
      k = kernel.kernels[i]
      lengthscale_val = k.lengthscale.numpy()
      lengthscales[i] = lengthscale_val
      lengthscales[i + input_dims] = lengthscale_val
  \<close>
\<close>

fun mirror_loop :: "kernel list \<Rightarrow> nat \<Rightarrow> nat list \<Rightarrow> real list \<Rightarrow> error + real list" where
  "mirror_loop ks input_dims [] lengthscales = Inr lengthscales"
| "mirror_loop ks input_dims (i # is) lengthscales =
     (if length ks \<le> i then Inl IndexError
      else case get_lengthscale (ks ! i) of
        Inl e \<Rightarrow> Inl e
      | Inr v \<Rightarrow>
          (case as_element v of
             Inl e \<Rightarrow> Inl e
           | Inr x \<Rightarrow>
               mirror_loop ks input_dims is (lengthscales[i := x, i + input_dims := x])))"

text \<open>Lines 33 to 42 of \<open>sample_fourier_features\<close>: the lengthscales of the kernel.\<close>

definition kernel_lengthscales :: "kernel \<Rightarrow> nat \<Rightarrow> error + npval" where
  "kernel_lengthscales kern d =
     (case kern of
        Product ks \<Rightarrow>
          (let input_dims = d div 2 in
           ebind (mirror_loop ks input_dims [0..<input_dims] (replicate d 0))
             (\<lambda>lengthscales. Inr (NpVector lengthscales)))
      | Stationary v \<Rightarrow> Inr v)"

text \<open>
  \<open>1.0 / lengthscales\<close> on a NumPy value is elementwise and does not raise (a zero
  lengthscale gives \<open>inf\<close>, which the real-number model does not represent).
\<close>

definition np_rdiv :: "real \<Rightarrow> npval \<Rightarrow> npval" where
  "np_rdiv a v =
     (case v of NpScalar x \<Rightarrow> NpScalar (a / x) | NpVector xs \<Rightarrow> NpVector (map (\<lambda>x. a / x) xs))"

definition to_tensor :: "npval \<Rightarrow> real ndarray" where
  "to_tensor v = (case v of NpScalar x \<Rightarrow> full [] x | NpVector xs \<Rightarrow> np_array [length xs] xs)"

definition tmul :: "real ndarray \<Rightarrow> real ndarray \<Rightarrow> error + real ndarray" where
  "tmul A B =
     (case broadcast_shapes (shape A) (shape B) of
        None \<Rightarrow> Inl InvalidArgumentError
      | Some s \<Rightarrow> Inr \<lparr>shape = s,
            item = (\<lambda>idx. item A (bindex (shape A) idx) * item B (bindex (shape B) idx))\<rparr>)"

text \<open>
  Randomness is an explicit input. \<open>tf.random.normal(shape, mean=0.0, stddev)\<close> is the
  standard normal draws \<open>Z\<close> of that shape, times \<open>stddev\<close>, plus the mean;
  \<open>tf.random.uniform(shape, minval, maxval)\<close> is the draws \<open>U\<close> from \<open>[0, 1)\<close> scaled
  to \<open>[minval, maxval)\<close>.
\<close>

definition random_normal :: "nat list \<Rightarrow> npval \<Rightarrow> (nat list \<Rightarrow> real) \<Rightarrow> error + real ndarray" where
  "random_normal s stddev Z = tmul \<lparr>shape = s, item = Z\<rparr> (to_tensor stddev)"

definition random_uniform :: "nat list \<Rightarrow> real \<Rightarrow> real \<Rightarrow> (nat list \<Rightarrow> real) \<Rightarrow> real ndarray" where
  "random_uniform s minval maxval U =
     \<lparr>shape = s, item = (\<lambda>idx. U idx * (maxval - minval) + minval)\<rparr>"

definition sample_fourier_features ::
  "real ndarray \<Rightarrow> kernel \<Rightarrow> nat \<Rightarrow> (nat list \<Rightarrow> real) \<Rightarrow> (nat list \<Rightarrow> real) \<Rightarrow>
     error + (real ndarray \<times> real ndarray \<times> real ndarray)" where
  "sample_fourier_features X kern D Z U =
     (if length (shape X) < 3 then Inl IndexError
      else let count = shape X ! 0; d = shape X ! 2 in
        ebind (kernel_lengthscales kern d) (\<lambda>lengthscales.
        ebind (random_normal [count, D, d] (np_rdiv 1 lengthscales) Z) (\<lambda>W.
        let b = random_uniform [count, D, 1] 0 (2 * pi) U in
        ebind (fourier_features X W b) (\<lambda>phi. Inr (phi, W, b)))))"

section \<open>Posterior Weight Sampler: \<open>sample_theta_variational\<close>\<close>

text \<open>\<open>tf.expand_dims(T, axis=-1)\<close>.\<close>

definition expand_dims_last :: "'a ndarray \<Rightarrow> 'a ndarray" where
  "expand_dims_last T = \<lparr>shape = shape T @ [1], item = (\<lambda>idx. item T (butlast idx))\<rparr>"

text \<open>
  \<open>tf.linalg.inv\<close> is TensorFlow's, so the inversion is a parameter \<open>linalg_inv\<close>: it
  returns the batch of inverses or raises \<open>InvalidArgumentError\<close>. That a returned
  array holds, batch entry by batch entry, a two-sided inverse is \<open>inv_sound\<close>.
\<close>

definition is_batch_inverse :: "real ndarray \<Rightarrow> real ndarray \<Rightarrow> bool" where
  "is_batch_inverse G Gi \<longleftrightarrow>
     length (shape G) = 3 \<and> shape G ! 1 = shape G ! 2 \<and> shape Gi = shape G \<and>
     (\<forall>c<shape G ! 0. \<forall>i<shape G ! 1. \<forall>j<shape G ! 1.
        (\<Sum>k<shape G ! 1. item G [c, i, k] * item Gi [c, k, j]) = (if i = j then 1 else 0) \<and>
        (\<Sum>k<shape G ! 1. item Gi [c, i, k] * item G [c, k, j]) = (if i = j then 1 else 0))"

definition inv_sound :: "(real ndarray \<Rightarrow> error + real ndarray) \<Rightarrow> bool" where
  "inv_sound linalg_inv \<longleftrightarrow> (\<forall>G Gi. linalg_inv G = Inr Gi \<longrightarrow> is_batch_inverse G Gi)"

text \<open>
  \<open>Zn\<close> are the standard normal draws of \<open>standard_normal.sample(count)\<close>, of shape
  \<open>(count, n)\<close>.
\<close>

definition sample_theta_variational ::
  "(real ndarray \<Rightarrow> error + real ndarray) \<Rightarrow> real ndarray \<Rightarrow> real ndarray \<Rightarrow> real ndarray \<Rightarrow>
     (nat list \<Rightarrow> real) \<Rightarrow> error + real ndarray" where
  "sample_theta_variational linalg_inv phi q_mu q_sqrt Zn =
     (if length (shape phi) < 3 then Inl IndexError
      else let count = shape phi ! 0; n = shape phi ! 1; D = shape phi ! 2;
               standard_normal_samples = \<lparr>shape = [count, n], item = Zn\<rparr> in
        ebind (matmul q_sqrt (expand_dims_last standard_normal_samples)) (\<lambda>m.
        ebind (tadd m q_mu) (\<lambda>q_samples.
        ebind (matrix_transpose phi) (\<lambda>transposed_phi.
        ebind (if n \<ge> D
               then ebind (matmul transposed_phi phi) (\<lambda>G.
                    ebind (linalg_inv G) (\<lambda>Gi. matmul Gi transposed_phi))
               else ebind (matmul phi transposed_phi) (\<lambda>G.
                    ebind (linalg_inv G) (\<lambda>Gi. matmul transposed_phi Gi)))
          (\<lambda>transform_mat. matmul transform_mat q_samples)))))"

section \<open>Sampling Orchestrator: \<open>sample_features_weights\<close>\<close>

record gp_model =
  kernel_of :: kernel
  q_mu_of :: "real ndarray"
  q_sqrt_of :: "real ndarray"

text \<open>The random draws one attempt consumes.\<close>

record draws =
  normal_W :: "nat list \<Rightarrow> real"
  uniform_b :: "nat list \<Rightarrow> real"
  normal_f :: "nat list \<Rightarrow> real"

type_synonym sample = "real ndarray \<times> real ndarray \<times> real ndarray \<times> real ndarray"

text \<open>The body of the \<open>try\<close>: one attempt, from its own draws.\<close>

definition sample_attempt ::
  "(real ndarray \<Rightarrow> error + real ndarray) \<Rightarrow> real ndarray \<Rightarrow> gp_model \<Rightarrow> nat \<Rightarrow> draws \<Rightarrow>
     error + sample" where
  "sample_attempt linalg_inv X model D dr =
     ebind (sample_fourier_features X (kernel_of model) D (normal_W dr) (uniform_b dr))
       (\<lambda>(phi, W, b).
     ebind (sample_theta_variational linalg_inv phi (q_mu_of model) (q_sqrt_of model) (normal_f dr))
       (\<lambda>theta. Inr (phi, W, b, theta)))"

text \<open>
  \<^verbatim>\<open>
  invertible = False
  fail_count = 0
  while not invertible:
      try:
          ...
          invertible = True
      except tf.errors.InvalidArgumentError as err:
          fail_count += 1
      if fail_count >= 100:
          raise ValueError("Failed")
  return phi, W, b, theta
  \<close>
  \<open>attempt k\<close> is the outcome of the \<open>try\<close> body on the \<open>k\<close>-th draws of the random
  stream; \<open>k\<close> counts the attempts made so far. The loop returns its outcome and the
  number of attempts it made. Only \<open>InvalidArgumentError\<close> is caught.
\<close>

function retry_loop :: "(nat \<Rightarrow> error + 'r) \<Rightarrow> nat \<Rightarrow> nat \<Rightarrow> (error + 'r) \<times> nat" where
  "retry_loop attempt fail_count k =
     (case attempt k of
        Inr r \<Rightarrow>
          (if fail_count \<ge> 100 then (Inl (ValueError ''Failed''), Suc k) else (Inr r, Suc k))
      | Inl e \<Rightarrow>
          (if e = InvalidArgumentError
           then (if Suc fail_count \<ge> 100 then (Inl (ValueError ''Failed''), Suc k)
                 else retry_loop attempt (Suc fail_count) (Suc k))
           else (Inl e, Suc k)))"
  by pat_completeness auto
termination
  by (relation "measure (\<lambda>(attempt, fail_count, k). 100 - fail_count)") auto

definition sample_features_weights ::
  "(real ndarray \<Rightarrow> error + real ndarray) \<Rightarrow> real ndarray \<Rightarrow> gp_model \<Rightarrow> nat \<Rightarrow> (nat \<Rightarrow> draws) \<Rightarrow>
     (error + sample) \<times> nat" where
  "sample_features_weights linalg_inv X model D rng =
     retry_loop (\<lambda>k. sample_attempt linalg_inv X model D (rng k)) 0 0"

section \<open>Maximizer Search: \<open>sample_maximizers\<close>\<close>

subsection \<open>NumPy float64 scalars\<close>

text \<open>
  \<open>loss().numpy()\<close> is a NumPy float64 scalar. Arithmetic on such scalars never raises:
  a division by zero gives \<open>inf\<close> or \<open>nan\<close> (with a warning). A finite value is a real
  number here; \<open>Inf\<close> stands for either infinity, which the code only passes through
  \<open>abs\<close>.
\<close>

datatype npfloat = Fin real | Inf | NaN

definition np_neg :: "npfloat \<Rightarrow> npfloat" where
  "np_neg a = (case a of Fin x \<Rightarrow> Fin (- x) | Inf \<Rightarrow> Inf | NaN \<Rightarrow> NaN)"

definition np_sub :: "npfloat \<Rightarrow> npfloat \<Rightarrow> npfloat" where
  "np_sub a b =
     (case (a, b) of
        (Fin x, Fin y) \<Rightarrow> Fin (x - y)
      | (Fin x, Inf) \<Rightarrow> Inf
      | (Inf, Fin y) \<Rightarrow> Inf
      | _ \<Rightarrow> NaN)"

definition np_div :: "npfloat \<Rightarrow> npfloat \<Rightarrow> npfloat" where
  "np_div a b =
     (case (a, b) of
        (Fin x, Fin y) \<Rightarrow> (if y = 0 then (if x = 0 then NaN else Inf) else Fin (x / y))
      | (Fin x, Inf) \<Rightarrow> Fin 0
      | (Inf, Fin y) \<Rightarrow> Inf
      | _ \<Rightarrow> NaN)"

definition np_abs :: "npfloat \<Rightarrow> npfloat" where
  "np_abs a = (case a of Fin x \<Rightarrow> Fin \<bar>x\<bar> | Inf \<Rightarrow> Inf | NaN \<Rightarrow> NaN)"

text \<open>\<open>a < t\<close> for a finite threshold \<open>t\<close>: false for \<open>inf\<close> (after \<open>abs\<close>) and for \<open>nan\<close>.\<close>

definition np_less :: "npfloat \<Rightarrow> real \<Rightarrow> bool" where
  "np_less a t = (case a of Fin x \<Rightarrow> x < t | Inf \<Rightarrow> False | NaN \<Rightarrow> False)"

subsection \<open>More array primitives\<close>

text \<open>All multi-indices of a shape, in row-major order.\<close>

fun index_space :: "nat list \<Rightarrow> nat list list" where
  "index_space [] = [[]]"
| "index_space (d # ds) = concat (map (\<lambda>i. map ((#) i) (index_space ds)) [0..<d])"

text \<open>\<open>tf.reduce_mean(T)\<close> over all entries; the mean of no entries is \<open>nan\<close>.\<close>

definition reduce_mean :: "real ndarray \<Rightarrow> npfloat" where
  "reduce_mean T =
     (let idxs = index_space (shape T) in
      if idxs = [] then NaN else Fin (sum_list (map (item T) idxs) / real (length idxs)))"

text \<open>\<open>tf.expand_dims(T, axis=0)\<close>.\<close>

definition expand_dims_first :: "'a ndarray \<Rightarrow> 'a ndarray" where
  "expand_dims_first T = \<lparr>shape = 1 # shape T, item = (\<lambda>idx. item T (tl idx))\<rparr>"

text \<open>\<open>tf.tile(T, multiples)\<close>: one multiple per axis.\<close>

definition tile :: "'a ndarray \<Rightarrow> nat list \<Rightarrow> error + 'a ndarray" where
  "tile T multiples =
     (if length multiples \<noteq> length (shape T) then Inl InvalidArgumentError
      else Inr \<lparr>shape = map2 (*) (shape T) multiples,
                item = (\<lambda>idx. item T (map2 (\<lambda>i d. i mod d) idx (shape T)))\<rparr>)"

text \<open>
  \<open>tf.clip_by_value(t, lo, hi)\<close> computes \<open>maximum(minimum(t, hi), lo)\<close>.
\<close>

definition clip_by_value :: "real ndarray \<Rightarrow> real \<Rightarrow> real \<Rightarrow> real ndarray" where
  "clip_by_value T clip_value_min clip_value_max =
     tmap (\<lambda>v. max (min v clip_value_max) clip_value_min) T"

definition insert_at :: "nat \<Rightarrow> 'a \<Rightarrow> 'a list \<Rightarrow> 'a list" where
  "insert_at k v xs = take k xs @ [v] @ drop k xs"

definition remove_at :: "nat \<Rightarrow> 'a list \<Rightarrow> 'a list" where
  "remove_at k xs = take k xs @ drop (Suc k) xs"

text \<open>\<open>tf.squeeze(T, axis)\<close>: the axis must have size 1.\<close>

definition squeeze :: "'a ndarray \<Rightarrow> nat \<Rightarrow> error + 'a ndarray" where
  "squeeze T axis =
     (if length (shape T) \<le> axis then Inl InvalidArgumentError
      else if shape T ! axis \<noteq> 1 then Inl InvalidArgumentError
      else Inr \<lparr>shape = remove_at axis (shape T), item = (\<lambda>idx. item T (insert_at axis 0 idx))\<rparr>)"

text \<open>
  The first index at which \<open>f\<close> is largest among \<open>f 0, ..., f k\<close>: a later index
  replaces the current one only when its value is strictly larger.
\<close>

fun argmax_upto :: "(nat \<Rightarrow> real) \<Rightarrow> nat \<Rightarrow> nat" where
  "argmax_upto f 0 = 0"
| "argmax_upto f (Suc k) = (let j = argmax_upto f k in if f j < f (Suc k) then Suc k else j)"

text \<open>
  \<open>tf.math.argmax(T, axis)\<close>, of type int64: in case of ties the smallest index; an
  empty axis raises.
\<close>

definition argmax :: "real ndarray \<Rightarrow> nat \<Rightarrow> error + int ndarray" where
  "argmax T axis =
     (if length (shape T) \<le> axis then Inl InvalidArgumentError
      else if shape T ! axis = 0 then Inl InvalidArgumentError
      else Inr \<lparr>shape = remove_at axis (shape T),
                item = (\<lambda>idx. int (argmax_upto (\<lambda>j. item T (insert_at axis j idx))
                                     (shape T ! axis - 1)))\<rparr>)"

text \<open>\<open>tf.range(count, dtype=tf.int64)\<close>.\<close>

definition tf_range :: "nat \<Rightarrow> int ndarray" where
  "tf_range count = \<lparr>shape = [count], item = (\<lambda>idx. int (hd idx))\<rparr>"

text \<open>\<open>tf.stack([A, B])\<close> along a new first axis: the shapes must agree.\<close>

definition stack2 :: "'a ndarray \<Rightarrow> 'a ndarray \<Rightarrow> error + 'a ndarray" where
  "stack2 A B =
     (if shape A \<noteq> shape B then Inl InvalidArgumentError
      else Inr \<lparr>shape = 2 # shape A,
                item = (\<lambda>idx. if hd idx = 0 then item A (tl idx) else item B (tl idx))\<rparr>)"

text \<open>\<open>tf.transpose(T)\<close> with the default permutation, which reverses the axes.\<close>

definition transpose_all :: "'a ndarray \<Rightarrow> 'a ndarray" where
  "transpose_all T = \<lparr>shape = rev (shape T), item = (\<lambda>idx. item T (rev idx))\<rparr>"

text \<open>
  \<open>tf.gather_nd(params, indices)\<close>: the last axis of \<open>indices\<close> holds index tuples of
  length \<open>K\<close> into the first \<open>K\<close> axes of \<open>params\<close>; an index out of range raises.
\<close>

definition gather_nd :: "'a ndarray \<Rightarrow> int ndarray \<Rightarrow> error + 'a ndarray" where
  "gather_nd params indices =
     (if shape indices = [] then Inl InvalidArgumentError
      else let K = last (shape indices); outer = butlast (shape indices) in
        if length (shape params) < K then Inl InvalidArgumentError
        else if \<exists>oi\<in>set (index_space outer). \<exists>k<K.
                  \<not> (0 \<le> item indices (oi @ [k]) \<and>
                     item indices (oi @ [k]) < int (shape params ! k))
        then Inl InvalidArgumentError
        else Inr \<lparr>shape = outer @ drop K (shape params),
              item = (\<lambda>idx.
                item params
                  (map (\<lambda>k. nat (item indices (take (length outer) idx @ [k]))) [0..<K] @
                   drop (length outer) idx))\<rparr>)"

subsection \<open>The objective and one optimizer step\<close>

text \<open>
  \<^verbatim>\<open>
  def construct_maximizer_objective(x_star):
      g = tf.reduce_mean(fourier_features(x_star, W, b) @ theta)
      return -g
  \<close>
\<close>

definition construct_maximizer_objective ::
  "real ndarray \<Rightarrow> real ndarray \<Rightarrow> real ndarray \<Rightarrow> real ndarray \<Rightarrow> error + npfloat" where
  "construct_maximizer_objective W b theta x_star =
     ebind (fourier_features x_star W b) (\<lambda>phi.
     ebind (matmul phi theta) (\<lambda>m.
     Inr (np_neg (reduce_mean m))))"

text \<open>
  \<open>optimizer.minimize(loss, var_list=[x_star])\<close>: the RMSprop update is Keras's, so it is
  a parameter \<open>opt\<close>, which maps the loss, the optimizer's state and the variable to
  the new state and the updated variable. After the update Keras applies the
  variable's \<open>constraint\<close>, which the code sets to
  \<open>lambda x: tf.clip_by_value(x, min_val, max_val)\<close>.
\<close>

type_synonym 's optimizer =
  "(real ndarray \<Rightarrow> error + npfloat) \<Rightarrow> 's \<Rightarrow> real ndarray \<Rightarrow> 's \<times> real ndarray"

definition minimize ::
  "'s optimizer \<Rightarrow> (real ndarray \<Rightarrow> error + npfloat) \<Rightarrow> real \<Rightarrow> real \<Rightarrow> 's \<times> real ndarray \<Rightarrow>
     's \<times> real ndarray" where
  "minimize opt loss min_val max_val sx =
     (case opt loss (fst sx) (snd sx) of
        (s', x') \<Rightarrow> (s', clip_by_value x' min_val max_val))"

text \<open>\<open>abs((current_loss - prev_loss) / prev_loss) < 1e-7\<close>.\<close>

definition rel_change :: "npfloat \<Rightarrow> npfloat \<Rightarrow> npfloat" where
  "rel_change current_loss prev_loss = np_abs (np_div (np_sub current_loss prev_loss) prev_loss)"

definition converged :: "npfloat \<Rightarrow> npfloat \<Rightarrow> bool" where
  "converged current_loss prev_loss \<longleftrightarrow> np_less (rel_change current_loss prev_loss) (1 / 10 ^ 7)"

text \<open>
  \<^verbatim>\<open>
  for i in range(num_steps):
      optimizer.minimize(loss, var_list=[x_star])
      current_loss = loss().numpy()
      if abs((current_loss-prev_loss) / prev_loss) < 1e-7:
          break
      prev_loss = current_loss
  \<close>
  The first numeric argument counts the iterations that remain. The loop also records,
  for every iteration it runs, the pair \<open>(prev_loss, current_loss)\<close> it compared: the
  length of this trace is the number of gradient updates made. (The \<open>print\<close> calls
  are left out.)
\<close>

fun optimize_loop ::
  "'s optimizer \<Rightarrow> (real ndarray \<Rightarrow> error + npfloat) \<Rightarrow> real \<Rightarrow> real \<Rightarrow> nat \<Rightarrow>
     's \<Rightarrow> real ndarray \<Rightarrow> npfloat \<Rightarrow> (npfloat \<times> npfloat) list \<Rightarrow>
     error + (real ndarray \<times> (npfloat \<times> npfloat) list)" where
  "optimize_loop opt loss min_val max_val 0 s x_star prev_loss trace = Inr (x_star, trace)"
| "optimize_loop opt loss min_val max_val (Suc remaining) s x_star prev_loss trace =
     (case minimize opt loss min_val max_val (s, x_star) of
        (s', x') \<Rightarrow>
          (case loss x' of
             Inl e \<Rightarrow> Inl e
           | Inr current_loss \<Rightarrow>
               if converged current_loss prev_loss
               then Inr (x', trace @ [(prev_loss, current_loss)])
               else optimize_loop opt loss min_val max_val remaining s' x' current_loss
                      (trace @ [(prev_loss, current_loss)])))"

subsection \<open>Selecting the best candidate of each sample\<close>

text \<open>
  \<^verbatim>\<open>
  test = fourier_features(x_star, W, b) @ theta
  fvals = tf.squeeze(fourier_features(x_star, W, b) @ theta, axis=2)
  max_idxs = tf.transpose(tf.stack([tf.range(count, dtype=tf.int64),
                       tf.math.argmax(fvals, axis=1)]))
  maximizers = tf.gather_nd(x_star, indices=max_idxs)
  \<close>
\<close>

definition select_maximizers ::
  "real ndarray \<Rightarrow> real ndarray \<Rightarrow> real ndarray \<Rightarrow> real ndarray \<Rightarrow> nat \<Rightarrow> error + real ndarray" where
  "select_maximizers x_star W b theta count =
     ebind (fourier_features x_star W b) (\<lambda>phi0.
     ebind (matmul phi0 theta) (\<lambda>test.
     ebind (fourier_features x_star W b) (\<lambda>phi.
     ebind (matmul phi theta) (\<lambda>m.
     ebind (squeeze m 2) (\<lambda>fvals.
     ebind (argmax fvals 1) (\<lambda>am.
     ebind (stack2 (tf_range count) am) (\<lambda>st.
     gather_nd x_star (transpose_all st))))))))"

subsection \<open>The whole search\<close>

text \<open>
  \<open>num_steps\<close> is optional and defaults to 3000. \<open>rng\<close> gives the draws of each sampling
  attempt, \<open>Ux\<close> the uniform draws for the initial candidates. The function returns
  the maximizers together with the trace of the optimization loop;
  \<open>sample_maximizers\<close> is what the caller sees.
\<close>

definition default_num_steps :: nat where
  "default_num_steps = 3000"

definition sample_maximizers_trace ::
  "(real ndarray \<Rightarrow> error + real ndarray) \<Rightarrow> 's optimizer \<Rightarrow> 's \<Rightarrow> (nat \<Rightarrow> draws) \<Rightarrow>
     (nat list \<Rightarrow> real) \<Rightarrow> real ndarray \<Rightarrow> nat \<Rightarrow> nat \<Rightarrow> nat \<Rightarrow> gp_model \<Rightarrow> real \<Rightarrow> real \<Rightarrow>
     nat option \<Rightarrow> error + (real ndarray \<times> (npfloat \<times> npfloat) list)" where
  "sample_maximizers_trace linalg_inv opt s0 rng Ux X count n_init D model min_val max_val num_steps =
     (if length (shape X) < 2 then Inl IndexError
      else let d = shape X ! 1 in
        ebind (tile (expand_dims_first X) [count, 1, 1]) (\<lambda>Xt.
        ebind (fst (sample_features_weights linalg_inv Xt model D rng)) (\<lambda>(phi, W, b, theta).
        let loss = construct_maximizer_objective W b theta;
            x0 = random_uniform [count, n_init, d] min_val max_val Ux in
        ebind (loss x0) (\<lambda>prev_loss.
        ebind (optimize_loop opt loss min_val max_val
                 (case num_steps of None \<Rightarrow> default_num_steps | Some k \<Rightarrow> k) s0 x0 prev_loss [])
          (\<lambda>(x_star, trace).
        ebind (select_maximizers x_star W b theta count) (\<lambda>maximizers.
        Inr (maximizers, trace)))))))"

definition sample_maximizers ::
  "(real ndarray \<Rightarrow> error + real ndarray) \<Rightarrow> 's optimizer \<Rightarrow> 's \<Rightarrow> (nat \<Rightarrow> draws) \<Rightarrow>
     (nat list \<Rightarrow> real) \<Rightarrow> real ndarray \<Rightarrow> nat \<Rightarrow> nat \<Rightarrow> nat \<Rightarrow> gp_model \<Rightarrow> real \<Rightarrow> real \<Rightarrow>
     nat option \<Rightarrow> error + real ndarray" where
  "sample_maximizers linalg_inv opt s0 rng Ux X count n_init D model min_val max_val num_steps =
     ebind (sample_maximizers_trace linalg_inv opt s0 rng Ux X count n_init D model
              min_val max_val num_steps)
       (\<lambda>(maximizers, trace). Inr maximizers)"


section \<open>Objective helpers (\<open>objectives.py\<close>)\<close>

text \<open>
  An objective takes an array of shape \<open>(..., input_dims)\<close> and returns the array of
  shape \<open>(...)\<close> of the values at the points along the last axis.
  \<open>lift_objective f\<close> is the objective that evaluates the point function \<open>f\<close>.
\<close>

definition point_at :: "real ndarray \<Rightarrow> nat list \<Rightarrow> real list" where
  "point_at x idx = map (\<lambda>k. item x (idx @ [k])) [0..<last (shape x)]"

definition lift_objective :: "(real list \<Rightarrow> real) \<Rightarrow> real ndarray \<Rightarrow> error + real ndarray" where
  "lift_objective f x =
     (if shape x = [] then Inl IndexError
      else Inr \<lparr>shape = butlast (shape x), item = (\<lambda>idx. f (point_at x idx))\<rparr>)"

text \<open>
  \<^verbatim>\<open>
  def six_hump_camel(x):
      x1 = x[..., 0]
      x2 = x[..., 1]
      return (4. - 2.1 * (x1 ** 2) + (1. / 3.) * (x1 ** 4)) * (x1 ** 2) + (x1 * x2) + (-4. + 4 * (x2 ** 2)) * (x2 ** 2)
  \<close>
\<close>

definition six_hump_camel_point :: "real \<Rightarrow> real \<Rightarrow> real" where
  "six_hump_camel_point x1 x2 =
     (4 - 21 / 10 * x1\<^sup>2 + (1 / 3) * x1 ^ 4) * x1\<^sup>2 + x1 * x2 + (- 4 + 4 * x2\<^sup>2) * x2\<^sup>2"

definition six_hump_camel :: "real ndarray \<Rightarrow> error + real ndarray" where
  "six_hump_camel x =
     (if shape x = [] \<or> last (shape x) < 2 then Inl IndexError
      else Inr \<lparr>shape = butlast (shape x),
                item = (\<lambda>idx. six_hump_camel_point (item x (idx @ [0])) (item x (idx @ [1])))\<rparr>)"

text \<open>\<open>return -np.expand_dims(objective(x), axis=-1)\<close>\<close>

definition objective_get_f_neg ::
  "real ndarray \<Rightarrow> (real ndarray \<Rightarrow> error + real ndarray) \<Rightarrow> error + real ndarray" where
  "objective_get_f_neg x objective =
     ebind (objective x) (\<lambda>v. Inr (tmap uminus (expand_dims_last v)))"

text \<open>A NumPy axis argument: negative values count from the last axis.\<close>

definition normalize_axis :: "int \<Rightarrow> nat \<Rightarrow> nat option" where
  "normalize_axis axis ndim =
     (if - int ndim \<le> axis \<and> axis < int ndim
      then Some (nat (if axis < 0 then axis + int ndim else axis)) else None)"

text \<open>
  The first index at which \<open>f\<close> is smallest among \<open>f 0, ..., f k\<close>; \<open>np.argmin\<close>
  returns the first occurrence of the minimum.
\<close>

fun argmin_upto :: "(nat \<Rightarrow> real) \<Rightarrow> nat \<Rightarrow> nat" where
  "argmin_upto f 0 = 0"
| "argmin_upto f (Suc k) = (let j = argmin_upto f k in if f (Suc k) < f j then Suc k else j)"

definition np_argmin :: "real ndarray \<Rightarrow> int \<Rightarrow> error + int ndarray" where
  "np_argmin T axis =
     (case normalize_axis axis (length (shape T)) of
        None \<Rightarrow> Inl AxisError
      | Some ax \<Rightarrow>
          if shape T ! ax = 0
          then Inl (ValueError ''attempt to get argmin of an empty sequence'')
          else Inr \<lparr>shape = remove_at ax (shape T),
                    item = (\<lambda>idx. int (argmin_upto (\<lambda>j. item T (insert_at ax j idx))
                                         (shape T ! ax - 1)))\<rparr>)"

text \<open>\<open>A[:, np.newaxis, np.newaxis]\<close>: two new axes after the first.\<close>

definition newaxis_after_first :: "'a ndarray \<Rightarrow> error + 'a ndarray" where
  "newaxis_after_first A =
     (if shape A = [] then Inl IndexError
      else Inr \<lparr>shape = hd (shape A) # 1 # 1 # tl (shape A),
                item = (\<lambda>idx. item A (hd idx # drop 3 idx))\<rparr>)"

text \<open>
  \<open>np.take_along_axis(arr, indices, axis)\<close> is \<open>arr[fancy_index]\<close>, where the fancy index
  has \<open>indices\<close> at \<open>axis\<close> and, at every other axis \<open>k\<close>, \<open>arange(arr.shape[k])\<close>
  shaped to lie along axis \<open>k\<close>; the index arrays broadcast against each other. Both
  arrays must have the same number of axes. A negative index counts from the end.
\<close>

definition take_along_axis :: "'a ndarray \<Rightarrow> int ndarray \<Rightarrow> int \<Rightarrow> error + 'a ndarray" where
  "take_along_axis arr indices axis =
     (case normalize_axis axis (length (shape arr)) of
        None \<Rightarrow> Inl AxisError
      | Some ax \<Rightarrow>
          if length (shape indices) \<noteq> length (shape arr)
          then Inl (ValueError ''indices and arr must have the same number of dimensions'')
          else let dims = map (\<lambda>k. if k = ax then Some (shape indices ! k)
                                     else bdim (shape arr ! k) (shape indices ! k))
                            [0..<length (shape arr)] in
            if None \<in> set dims then Inl IndexError
            else let rs = map the dims; n = int (shape arr ! ax) in
              if \<exists>idx\<in>set (index_space rs).
                   \<not> (- n \<le> item indices (bindex (shape indices) idx) \<and>
                      item indices (bindex (shape indices) idx) < n)
              then Inl IndexError
              else Inr \<lparr>shape = rs,
                    item = (\<lambda>idx.
                      let v = item indices (bindex (shape indices) idx) in
                      item arr ((bindex (shape arr) idx)[ax := nat (if v < 0 then v + n else v)]))\<rparr>)"

text \<open>\<open>np.squeeze(A, axis)\<close>: the axis must have size 1.\<close>

definition np_squeeze :: "'a ndarray \<Rightarrow> int \<Rightarrow> error + 'a ndarray" where
  "np_squeeze A axis =
     (case normalize_axis axis (length (shape A)) of
        None \<Rightarrow> Inl AxisError
      | Some ax \<Rightarrow>
          if shape A ! ax \<noteq> 1
          then Inl (ValueError ''cannot select an axis to squeeze out which has size not equal to one'')
          else Inr \<lparr>shape = remove_at ax (shape A),
                    item = (\<lambda>idx. item A (insert_at ax 0 idx))\<rparr>)"

text \<open>
  \<^verbatim>\<open>
  evals = objective(x)  # (..., num_choices)
  indices = np.argmin(evals, axis=1)[:, np.newaxis, np.newaxis]  # (..., 1, 1)
  return np.squeeze(np.take_along_axis(x, indices, axis=-2), axis=-2)
  \<close>
\<close>

definition objective_get_y ::
  "real ndarray \<Rightarrow> (real ndarray \<Rightarrow> error + real ndarray) \<Rightarrow> error + real ndarray" where
  "objective_get_y x objective =
     ebind (objective x) (\<lambda>evals.
     ebind (np_argmin evals 1) (\<lambda>am.
     ebind (newaxis_after_first am) (\<lambda>indices.
     ebind (take_along_axis x indices (- 2)) (\<lambda>taken.
     np_squeeze taken (- 2)))))"


section \<open>Concrete inputs for the examples\<close>

text \<open>An inversion that reports every matrix singular.\<close>

definition singular_inv :: "real ndarray \<Rightarrow> error + real ndarray" where
  "singular_inv G = Inl InvalidArgumentError"

text \<open>An inversion for batches of 1-by-1 matrices; it raises on anything else.\<close>

definition inv_1x1 :: "real ndarray \<Rightarrow> error + real ndarray" where
  "inv_1x1 G =
     (if length (shape G) = 3 \<and> shape G ! 1 = 1 \<and> shape G ! 2 = 1 \<and>
         (\<forall>c<shape G ! 0. item G [c, 0, 0] \<noteq> 0)
      then Inr \<lparr>shape = shape G, item = (\<lambda>idx. 1 / item G idx)\<rparr>
      else Inl InvalidArgumentError)"

definition unit_model :: gp_model where
  "unit_model =
     \<lparr>kernel_of = Stationary (NpScalar 1), q_mu_of = full [1, 1] 1, q_sqrt_of = full [1, 1, 1] 1\<rparr>"

definition zero_draws :: draws where
  "zero_draws = \<lparr>normal_W = (\<lambda>idx. 0), uniform_b = (\<lambda>idx. 0), normal_f = (\<lambda>idx. 0)\<rparr>"

definition constant_draws :: "real \<Rightarrow> nat list \<Rightarrow> real" where
  "constant_draws v idx = v"


text \<open>An optimizer that leaves the variable where it is.\<close>

definition idle_optimizer :: "unit optimizer" where
  "idle_optimizer loss s x = (s, x)"

definition quarter_draws :: "nat list \<Rightarrow> real" where
  "quarter_draws idx = (if idx = [0, 0, 0] then 1 / 4 else 3 / 4)"

section \<open>Properties\<close>

subsection \<open>Basic facts about the array primitives\<close>

lemma ebind_Inr [simp]: "ebind (Inr x) f = f x"
  by (simp add: ebind_def)

lemma ebind_Inl [simp]: "ebind (Inl e) f = Inl e"
  by (simp add: ebind_def)

lemma bdim_same [simp]: "bdim a a = Some a"
  by (simp add: bdim_def)

lemma bdim_one_right [simp]: "bdim a (Suc 0) = Some a"
  by (simp add: bdim_def)

lemma bdim_one_left [simp]: "bdim (Suc 0) a = Some a"
  by (simp add: bdim_def)

lemma bcast_one [simp]: "i < d \<Longrightarrow> (if d = Suc 0 then 0 else i) = i"
  by auto

lemma matrix_transpose_rank3:
  assumes "shape T = [c, n, m]"
  shows "\<exists>T'. matrix_transpose T = Inr T' \<and> shape T' = [c, m, n] \<and>
    (\<forall>a i j. item T' [a, i, j] = item T [a, j, i])"
  using assms by (auto simp: matrix_transpose_def swap_last2_def)

lemma matmul_rank3:
  assumes "shape A = [ca, n, m]" "shape B = [cb, m, p]" "bdim ca cb = Some c"
  shows "\<exists>C. matmul A B = Inr C \<and> shape C = [c, n, p] \<and>
    (\<forall>a i j. item C [a, i, j] =
       (\<Sum>k<m. item A [if ca = 1 then 0 else a, i, k] * item B [if cb = 1 then 0 else a, k, j]))"
  using assms by (auto simp: matmul_def broadcast_shapes_def bindex_def Let_def)

lemma tadd_rank3_rank2:
  assumes "shape A = [c, n, 1]" "shape B = [n, 1]"
  shows "\<exists>C. tadd A B = Inr C \<and> shape C = [c, n, 1] \<and>
    (\<forall>a i. a < c \<longrightarrow> i < n \<longrightarrow> item C [a, i, 0] = item A [a, i, 0] + item B [i, 0])"
  using assms by (auto simp: tadd_def broadcast_shapes_def bindex_def Let_def)

lemmas eval_defs = sample_attempt_def sample_fourier_features_def sample_theta_variational_def
  fourier_features_def kernel_lengthscales_def random_normal_def random_uniform_def np_rdiv_def
  to_tensor_def tmul_def tadd_def matmul_def matrix_transpose_def swap_last2_def
  expand_dims_last_def broadcast_shapes_def bindex_def py_truediv_def tmap_def zeros_def full_def
  np_array_def Let_def unit_model_def zero_draws_def

subsection \<open>The Feature Mapper\<close>

lemma fourier_features_value:
  assumes X: "shape X = [count, n, d]"
    and W: "shape W = [count, D, d]"
    and b: "shape b = [count, D, 1]"
    and D: "1 \<le> D"
  shows "\<exists>phi. fourier_features X W b = Inr phi \<and> shape phi = [count, n, D] \<and>
           (\<forall>c<count. \<forall>i<n. \<forall>j<D.
              item phi [c, i, j] =
                sqrt (2 / real D) *
                  cos ((\<Sum>k<d. item W [c, j, k] * item X [c, i, k]) + item b [c, j, 0]))"
  using assms
  by (auto simp: fourier_features_def matrix_transpose_def matmul_def tadd_def py_truediv_def
      broadcast_shapes_def bindex_def swap_last2_def tmap_def Let_def)

text \<open>
  C3 (as amended). \<open>fourier_features\<close> is a function of \<open>X\<close>, \<open>W\<close> and \<open>b\<close> alone: it
  reads no state and draws no randomness, so equal inputs give equal outputs. For
  \<open>X\<close> of shape \<open>(count, n, d)\<close>, \<open>W\<close> of shape \<open>(count, D, d)\<close> and \<open>b\<close> of shape
  \<open>(count, D, 1)\<close> with at least one feature (\<open>D \<ge> 1\<close>) it returns \<open>phi\<close> of shape
  \<open>(count, n, D)\<close> with
  \<open>phi[c,i,j] = sqrt(2/D) * cos(W[c,j,:] . X[c,i,:] + b[c,j,0])\<close>.
\<close>

theorem C3_fourier_features_formula:
  assumes "shape X = [count, n, d]"
    and "shape W = [count, D, d]"
    and "shape b = [count, D, 1]"
    and "1 \<le> D"
  shows "\<exists>phi. fourier_features X W b = Inr phi \<and> shape phi = [count, n, D] \<and>
           (\<forall>c<count. \<forall>i<n. \<forall>j<D.
              item phi [c, i, j] =
                sqrt (2 / real D) *
                  cos ((\<Sum>k<d. item W [c, j, k] * item X [c, i, k]) + item b [c, j, 0]))"
  using assms by (rule fourier_features_value)

theorem C3_fourier_features_formula_witness:
  "\<exists>phi. fourier_features (zeros [1, 1, 1]) (zeros [1, 1, 1]) (zeros [1, 1, 1]) = Inr phi \<and>
     shape phi = [1, 1, 1] \<and> item phi [0, 0, 0] = sqrt 2"
  using C3_fourier_features_formula [of "zeros [1, 1, 1]" 1 1 1 "zeros [1, 1, 1]" 1 "zeros [1, 1, 1]"]
  by (simp add: zeros_def full_def)

text \<open>
  C3 as stated fails when there are no features: with \<open>W\<close> of shape \<open>(1, 0, 1)\<close> the
  Python division \<open>2.0 / D\<close> raises \<open>ZeroDivisionError\<close>, so no \<open>phi\<close> is returned.
\<close>

theorem C3_no_features_counterexample:
  "fourier_features (zeros [1, 1, 1]) (zeros [1, 0, 1]) (zeros [1, 0, 1]) = Inl ZeroDivisionError"
  by (simp add: eval_defs)

subsection \<open>The retry loop\<close>

declare retry_loop.simps [simp del]

lemma retry_loop_all_fail:
  "fc + m = 100 \<Longrightarrow> 0 < m \<Longrightarrow> (\<forall>j<m. attempt (k + j) = Inl InvalidArgumentError) \<Longrightarrow>
   retry_loop attempt fc k = (Inl (ValueError ''Failed''), k + m)"
proof (induction m arbitrary: fc k)
  case 0
  then show ?case by simp
next
  case (Suc m)
  from Suc.prems have a0: "attempt k = Inl InvalidArgumentError"
    by (metis add.right_neutral zero_less_Suc)
  show ?case
  proof (cases "m = 0")
    case True
    with Suc.prems a0 show ?thesis by (subst retry_loop.simps) simp
  next
    case False
    have "\<forall>j<m. attempt (Suc k + j) = Inl InvalidArgumentError"
      using Suc.prems(3) by (metis add_Suc_shift Suc_less_eq)
    with Suc.IH [of "Suc fc" "Suc k"] Suc.prems False
    have "retry_loop attempt (Suc fc) (Suc k) = (Inl (ValueError ''Failed''), Suc k + m)"
      by simp
    with Suc.prems a0 False show ?thesis by (subst retry_loop.simps) simp
  qed
qed

lemma retry_loop_success:
  "fc + m < 100 \<Longrightarrow> (\<forall>j<m. attempt (k + j) = Inl InvalidArgumentError) \<Longrightarrow>
   attempt (k + m) = Inr r \<Longrightarrow> retry_loop attempt fc k = (Inr r, Suc (k + m))"
proof (induction m arbitrary: fc k)
  case 0
  then show ?case by (subst retry_loop.simps) simp
next
  case (Suc m)
  from Suc.prems have a0: "attempt k = Inl InvalidArgumentError"
    by (metis add.right_neutral zero_less_Suc)
  have "\<forall>j<m. attempt (Suc k + j) = Inl InvalidArgumentError"
    using Suc.prems(2) by (metis add_Suc_shift Suc_less_eq)
  with Suc.IH [of "Suc fc" "Suc k"] Suc.prems
  have "retry_loop attempt (Suc fc) (Suc k) = (Inr r, Suc (Suc k + m))" by simp
  with Suc.prems a0 show ?case by (subst retry_loop.simps) simp
qed

lemma retry_loop_not_singular:
  "fst (retry_loop attempt fc k) \<noteq> Inl InvalidArgumentError"
proof (induction attempt fc k rule: retry_loop.induct)
  case (1 attempt fail_count k)
  then show ?case
    by (subst retry_loop.simps) (auto split: sum.splits)
qed

lemma attempt_singular:
  "sample_attempt singular_inv (zeros [1, 1, 1]) unit_model 1 zero_draws = Inl InvalidArgumentError"
  by (simp add: eval_defs singular_inv_def)

lemma attempt_ok:
  "\<exists>r. sample_attempt inv_1x1 (zeros [1, 1, 1]) unit_model 1 zero_draws = Inr r"
  by (simp add: eval_defs inv_1x1_def)

text \<open>
  C5. The second component of the result of \<open>sample_features_weights\<close> is the number of
  attempts made; attempt \<open>k\<close> is computed from the \<open>k\<close>-th draws \<open>rng k\<close> alone. If each
  of the first 100 attempts raises \<open>InvalidArgumentError\<close> (the inversion failure), the
  function raises \<open>ValueError("Failed")\<close> after exactly 100 attempts. If attempt \<open>m\<close>
  (\<open>m < 100\<close>) is the first to succeed, the loop stops there, after \<open>m + 1\<close> attempts,
  and returns that attempt's \<open>(phi, W, b, theta)\<close>. In no case does the caller see
  \<open>InvalidArgumentError\<close>.
\<close>

theorem C5_retry_bound:
  "((\<forall>k<100. sample_attempt linalg_inv X model D (rng k) = Inl InvalidArgumentError) \<longrightarrow>
      sample_features_weights linalg_inv X model D rng = (Inl (ValueError ''Failed''), 100)) \<and>
   (\<forall>m r. m < 100 \<and>
      (\<forall>k<m. sample_attempt linalg_inv X model D (rng k) = Inl InvalidArgumentError) \<and>
      sample_attempt linalg_inv X model D (rng m) = Inr r \<longrightarrow>
      sample_features_weights linalg_inv X model D rng = (Inr r, Suc m)) \<and>
   fst (sample_features_weights linalg_inv X model D rng) \<noteq> Inl InvalidArgumentError"
  unfolding sample_features_weights_def
  using retry_loop_all_fail [of 0 100 "\<lambda>k. sample_attempt linalg_inv X model D (rng k)" 0]
    retry_loop_success [of 0 _ "\<lambda>k. sample_attempt linalg_inv X model D (rng k)" 0]
    retry_loop_not_singular [of "\<lambda>k. sample_attempt linalg_inv X model D (rng k)" 0 0]
  by auto

theorem C5_retry_bound_witness:
  "sample_features_weights singular_inv (zeros [1, 1, 1]) unit_model 1 (\<lambda>k. zero_draws) =
     (Inl (ValueError ''Failed''), 100) \<and>
   (\<exists>r. sample_features_weights inv_1x1 (zeros [1, 1, 1]) unit_model 1 (\<lambda>k. zero_draws) =
     (Inr r, 1))"
proof -
  obtain r where r: "sample_attempt inv_1x1 (zeros [1, 1, 1]) unit_model 1 zero_draws = Inr r"
    using attempt_ok by blast
  have "sample_features_weights inv_1x1 (zeros [1, 1, 1]) unit_model 1 (\<lambda>k. zero_draws) =
     (Inr r, 1)"
    using C5_retry_bound [of inv_1x1 "zeros [1, 1, 1]" unit_model 1 "\<lambda>k. zero_draws"] r
    by (metis One_nat_def not_less_zero zero_less_numeral)
  moreover have "sample_features_weights singular_inv (zeros [1, 1, 1]) unit_model 1
      (\<lambda>k. zero_draws) = (Inl (ValueError ''Failed''), 100)"
    using C5_retry_bound [of singular_inv "zeros [1, 1, 1]" unit_model 1 "\<lambda>k. zero_draws"]
      attempt_singular by simp
  ultimately show ?thesis by blast
qed

subsection \<open>The lengthscale vector\<close>

lemma four_halves:
  "(4::nat) div 2 = 2" "[0..<2] = [0, Suc 0]" "replicate 4 (0::real) = [0, 0, 0, 0]"
proof -
  show "(4::nat) div 2 = 2" by simp
  show "[0..<2] = [0, Suc 0]" by (simp add: upt_rec)
  show "replicate 4 (0::real) = [0, 0, 0, 0]" by (simp add: eval_nat_numeral)
qed

lemmas kernel_eval =
  kernel_lengthscales_def get_lengthscale_def as_element_def Let_def four_halves

lemma mirror_loop_scalar:
  assumes "\<forall>i\<in>set is. i < length ks \<and> ks ! i = Stationary (NpScalar (l i))"
  shows "mirror_loop ks m is ls = Inr (fold (\<lambda>i acc. acc[i := l i, i + m := l i]) is ls)"
  using assms
  by (induction "is" arbitrary: ls) (auto simp: get_lengthscale_def as_element_def)

lemma fold_mirror_length:
  "length (fold (\<lambda>i acc. acc[i := l i, i + m := (l i :: real)]) is ls) = length ls"
  by (induction "is" arbitrary: ls) auto

lemma fold_mirror_nth:
  assumes "set is \<subseteq> {..<m}" "distinct is" "m + m \<le> length ls"
  shows "\<forall>i\<in>set is. fold (\<lambda>i acc. acc[i := l i, i + m := (l i :: real)]) is ls ! i = l i \<and>
          fold (\<lambda>i acc. acc[i := l i, i + m := l i]) is ls ! (i + m) = l i"
  using assms
proof (induction "is" arbitrary: ls rule: rev_induct)
  case Nil
  then show ?case by simp
next
  case (snoc x xs)
  then show ?case
    by (auto simp: nth_list_update fold_mirror_length)
qed

text \<open>
  C4 (as amended). For a product kernel whose factors \<open>kernel.kernels[i]\<close>, for
  \<open>i < d // 2\<close>, each carry a scalar lengthscale \<open>l i\<close>, \<open>sample_fourier_features\<close>
  builds a lengthscale vector of length \<open>d\<close> whose entries \<open>i\<close> and \<open>i + d // 2\<close> both
  equal \<open>l i\<close>: the first half is mirrored into the second. In particular, for \<open>d = 4\<close>
  and factors with lengthscales 1.0 and 2.0 the vector is \<open>[1.0, 2.0, 1.0, 2.0]\<close>.
\<close>

theorem C4_lengthscale_mirroring:
  assumes "\<forall>i<d div 2. i < length ks \<and> ks ! i = Stationary (NpScalar (l i))"
  shows "\<exists>ls. kernel_lengthscales (Product ks) d = Inr (NpVector ls) \<and> length ls = d \<and>
           (\<forall>i<d div 2. ls ! i = l i \<and> ls ! (i + d div 2) = l i)"
proof -
  let ?m = "d div 2"
  let ?ls = "fold (\<lambda>i acc. acc[i := l i, i + ?m := l i]) [0..<?m] (replicate d 0)"
  have "mirror_loop ks ?m [0..<?m] (replicate d 0) = Inr ?ls"
    using assms by (intro mirror_loop_scalar) simp
  then have run: "kernel_lengthscales (Product ks) d = Inr (NpVector ?ls)"
    by (simp add: kernel_lengthscales_def Let_def)
  have len: "length ?ls = d" by (simp add: fold_mirror_length)
  have "\<forall>i\<in>set [0..<?m]. ?ls ! i = l i \<and> ?ls ! (i + ?m) = l i"
    by (rule fold_mirror_nth) auto
  with run len show ?thesis by auto
qed

theorem C4_lengthscale_mirroring_witness:
  "kernel_lengthscales (Product [Stationary (NpScalar 1), Stationary (NpScalar 2)]) 4 =
     Inr (NpVector [1, 2, 1, 2])"
  using C4_lengthscale_mirroring [of 4 "[Stationary (NpScalar 1), Stationary (NpScalar 2)]"
      "\<lambda>i. if i = 0 then 1 else 2"]
  by (simp add: kernel_eval)

text \<open>
  C4 as stated fails: for a product of two 2-dimensional kernels, the first with the
  lengthscales \<open>[1.0, 2.0]\<close>, the loop reads \<open>kernel.kernels[0].lengthscale\<close>, an array
  of two numbers, and storing it into the slot \<open>lengthscales[0]\<close> raises.
\<close>

theorem C4_array_lengthscale_counterexample:
  "kernel_lengthscales (Product [Stationary (NpVector [1, 2]), Stationary (NpVector [3, 4])]) 4 =
     Inl (ValueError ''setting an array element with a sequence.'')"
  by (simp add: kernel_eval)

text \<open>
  With scalar lengthscales the second factor is read too (as \<open>kernel.kernels[1]\<close>), so
  the vector depends on it.
\<close>

lemma second_factor_used:
  "kernel_lengthscales (Product [Stationary (NpScalar 1), Stationary (NpScalar 5)]) 4 =
     Inr (NpVector [1, 5, 1, 5])"
  by (simp add: kernel_eval)

subsection \<open>The Posterior Weight Sampler\<close>

lemma transposed_rank3:
  assumes "shape phi = [count, n, D]" "matrix_transpose phi = Inr phiT"
  shows "shape phiT = [count, D, n]" "\<And>a i j. item phiT [a, i, j] = item phi [a, j, i]"
  using assms by (auto simp: matrix_transpose_def swap_last2_def)

lemma q_samples_value:
  assumes mu: "shape q_mu = [n, 1]" and sq: "shape q_sqrt = [1, n, n]"
  shows "\<exists>f. ebind (matmul q_sqrt (expand_dims_last \<lparr>shape = [count, n], item = Zn\<rparr>))
                (\<lambda>m. tadd m q_mu) = Inr f \<and> shape f = [count, n, 1] \<and>
           (\<forall>c<count. \<forall>i<n. item f [c, i, 0] =
              (\<Sum>l<n. item q_sqrt [0, i, l] * Zn [c, l]) + item q_mu [i, 0])"
proof -
  let ?z = "expand_dims_last \<lparr>shape = [count, n], item = Zn\<rparr>"
  have z: "shape ?z = [count, n, 1]" "\<And>c l. item ?z [c, l, 0] = Zn [c, l]"
    by (simp_all add: expand_dims_last_def)
  obtain m where m: "matmul q_sqrt ?z = Inr m" "shape m = [count, n, 1]"
    "\<And>a i j. item m [a, i, j] =
       (\<Sum>k<n. item q_sqrt [0, i, k] * item ?z [if count = 1 then 0 else a, k, j])"
    using matmul_rank3 [OF sq z(1), of count] by auto
  obtain f where f: "tadd m q_mu = Inr f" "shape f = [count, n, 1]"
    "\<And>a i. a < count \<Longrightarrow> i < n \<Longrightarrow> item f [a, i, 0] = item m [a, i, 0] + item q_mu [i, 0]"
    using tadd_rank3_rank2 [OF m(2) mu] by auto
  have "item f [c, i, 0] = (\<Sum>l<n. item q_sqrt [0, i, l] * Zn [c, l]) + item q_mu [i, 0]"
    if "c < count" "i < n" for c i
  proof -
    have c0: "(if count = 1 then 0 else c) = c" using that by auto
    show ?thesis using that by (simp add: f(3) m(3) z(2) c0)
  qed
  with m(1) f(1,2) show ?thesis by simp
qed

lemma gram_over:
  assumes phi: "shape phi = [count, n, D]"
    and T: "matrix_transpose phi = Inr phiT"
    and G: "matmul phiT phi = Inr G"
  shows "shape G = [count, D, D]"
    "\<And>c j k. c < count \<Longrightarrow> item G [c, j, k] = (\<Sum>i<n. item phi [c, i, j] * item phi [c, i, k])"
proof -
  note pT = transposed_rank3 [OF phi T]
  obtain G' where G': "matmul phiT phi = Inr G'" "shape G' = [count, D, D]"
    "\<And>a i j. item G' [a, i, j] =
       (\<Sum>k<n. item phiT [if count = 1 then 0 else a, i, k] *
          item phi [if count = 1 then 0 else a, k, j])"
    using matmul_rank3 [OF pT(1) phi, of count] by auto
  with G have e: "G' = G" by simp
  show "shape G = [count, D, D]" using G'(2) e by simp
  show "item G [c, j, k] = (\<Sum>i<n. item phi [c, i, j] * item phi [c, i, k])" if "c < count" for c j k
  proof -
    have c0: "(if count = 1 then 0 else c) = c" using that by auto
    have "item G' [c, j, k] = (\<Sum>i<n. item phi [c, i, j] * item phi [c, i, k])"
      unfolding G'(3) c0 by (simp add: pT(2))
    then show ?thesis by (simp add: e)
  qed
qed

lemma gram_under:
  assumes phi: "shape phi = [count, n, D]"
    and T: "matrix_transpose phi = Inr phiT"
    and G: "matmul phi phiT = Inr G"
  shows "shape G = [count, n, n]"
    "\<And>c i l. c < count \<Longrightarrow> item G [c, i, l] = (\<Sum>k<D. item phi [c, i, k] * item phi [c, l, k])"
proof -
  note pT = transposed_rank3 [OF phi T]
  obtain G' where G': "matmul phi phiT = Inr G'" "shape G' = [count, n, n]"
    "\<And>a i j. item G' [a, i, j] =
       (\<Sum>k<D. item phi [if count = 1 then 0 else a, i, k] *
          item phiT [if count = 1 then 0 else a, k, j])"
    using matmul_rank3 [OF phi pT(1), of count] by auto
  with G have e: "G' = G" by simp
  show "shape G = [count, n, n]" using G'(2) e by simp
  show "item G [c, i, l] = (\<Sum>k<D. item phi [c, i, k] * item phi [c, l, k])" if "c < count" for c i l
  proof -
    have c0: "(if count = 1 then 0 else c) = c" using that by auto
    have "item G' [c, i, l] = (\<Sum>k<D. item phi [c, i, k] * item phi [c, l, k])"
      unfolding G'(3) c0 by (simp add: pT(2))
    then show ?thesis by (simp add: e)
  qed
qed

lemma theta_over:
  assumes phi: "shape phi = [count, n, D]"
    and mu: "shape q_mu = [n, 1]"
    and sq: "shape q_sqrt = [1, n, n]"
    and T: "matrix_transpose phi = Inr phiT"
    and Dn: "D \<le> n"
    and G: "matmul phiT phi = Inr G"
    and Gi: "linalg_inv G = Inr Gi" "shape Gi = shape G"
  shows "\<exists>theta. sample_theta_variational linalg_inv phi q_mu q_sqrt Zn = Inr theta \<and>
               shape theta = [count, D, 1] \<and>
               (\<forall>c<count. \<forall>j<D. item theta [c, j, 0] =
                  (\<Sum>i<n. (\<Sum>k<D. item Gi [c, j, k] * item phi [c, i, k]) *
                     ((\<Sum>l<n. item q_sqrt [0, i, l] * Zn [c, l]) + item q_mu [i, 0])))"
proof -
  obtain f where f:
    "ebind (matmul q_sqrt (expand_dims_last \<lparr>shape = [count, n], item = Zn\<rparr>))
       (\<lambda>m. tadd m q_mu) = Inr f" "shape f = [count, n, 1]"
    "\<And>c i. c < count \<Longrightarrow> i < n \<Longrightarrow> item f [c, i, 0] =
       (\<Sum>l<n. item q_sqrt [0, i, l] * Zn [c, l]) + item q_mu [i, 0]"
    using q_samples_value [OF mu sq, of count Zn] by auto
  note pT = transposed_rank3 [OF phi T]
  have sG: "shape G = [count, D, D]" by (rule gram_over [OF phi T G])
  obtain tm where tm: "matmul Gi phiT = Inr tm" "shape tm = [count, D, n]"
    "\<And>a i j. item tm [a, i, j] =
       (\<Sum>k<D. item Gi [if count = 1 then 0 else a, i, k] *
          item phiT [if count = 1 then 0 else a, k, j])"
    using matmul_rank3 [of Gi count D D phiT count n count] pT(1) Gi(2) sG by auto
  obtain theta where th: "matmul tm f = Inr theta" "shape theta = [count, D, 1]"
    "\<And>a i j. item theta [a, i, j] =
       (\<Sum>k<n. item tm [if count = 1 then 0 else a, i, k] *
          item f [if count = 1 then 0 else a, k, j])"
    using matmul_rank3 [OF tm(2) f(2), of count] by auto
  have run: "sample_theta_variational linalg_inv phi q_mu q_sqrt Zn = Inr theta"
    using phi Dn f(1) T G Gi(1) tm(1) th(1)
    by (auto simp add: sample_theta_variational_def ebind_def split: sum.splits)
  have val: "item theta [c, j, 0] =
      (\<Sum>i<n. (\<Sum>k<D. item Gi [c, j, k] * item phi [c, i, k]) *
         ((\<Sum>l<n. item q_sqrt [0, i, l] * Zn [c, l]) + item q_mu [i, 0]))"
    if "c < count" "j < D" for c j
  proof -
    have c0: "(if count = 1 then 0 else c) = c" using that by auto
    show ?thesis
      unfolding th(3) c0 tm(3) using that pT(2)
      by (intro sum.cong refl) (simp add: f(3))
  qed
  show ?thesis using run th(2) val by blast
qed

lemma theta_under:
  assumes phi: "shape phi = [count, n, D]"
    and mu: "shape q_mu = [n, 1]"
    and sq: "shape q_sqrt = [1, n, n]"
    and T: "matrix_transpose phi = Inr phiT"
    and Dn: "n < D"
    and G: "matmul phi phiT = Inr G"
    and Gi: "linalg_inv G = Inr Gi" "shape Gi = shape G"
  shows "\<exists>theta. sample_theta_variational linalg_inv phi q_mu q_sqrt Zn = Inr theta \<and>
               shape theta = [count, D, 1] \<and>
               (\<forall>c<count. \<forall>j<D. item theta [c, j, 0] =
                  (\<Sum>i<n. (\<Sum>k<n. item phi [c, k, j] * item Gi [c, k, i]) *
                     ((\<Sum>l<n. item q_sqrt [0, i, l] * Zn [c, l]) + item q_mu [i, 0])))"
proof -
  obtain f where f:
    "ebind (matmul q_sqrt (expand_dims_last \<lparr>shape = [count, n], item = Zn\<rparr>))
       (\<lambda>m. tadd m q_mu) = Inr f" "shape f = [count, n, 1]"
    "\<And>c i. c < count \<Longrightarrow> i < n \<Longrightarrow> item f [c, i, 0] =
       (\<Sum>l<n. item q_sqrt [0, i, l] * Zn [c, l]) + item q_mu [i, 0]"
    using q_samples_value [OF mu sq, of count Zn] by auto
  note pT = transposed_rank3 [OF phi T]
  have sG: "shape G = [count, n, n]" by (rule gram_under [OF phi T G])
  obtain tm where tm: "matmul phiT Gi = Inr tm" "shape tm = [count, D, n]"
    "\<And>a i j. item tm [a, i, j] =
       (\<Sum>k<n. item phiT [if count = 1 then 0 else a, i, k] *
          item Gi [if count = 1 then 0 else a, k, j])"
    using matmul_rank3 [of phiT count D n Gi count n count] pT(1) Gi(2) sG by auto
  obtain theta where th: "matmul tm f = Inr theta" "shape theta = [count, D, 1]"
    "\<And>a i j. item theta [a, i, j] =
       (\<Sum>k<n. item tm [if count = 1 then 0 else a, i, k] *
          item f [if count = 1 then 0 else a, k, j])"
    using matmul_rank3 [OF tm(2) f(2), of count] by auto
  have run: "sample_theta_variational linalg_inv phi q_mu q_sqrt Zn = Inr theta"
    using phi Dn f(1) T G Gi(1) tm(1) th(1)
    by (auto simp add: sample_theta_variational_def ebind_def split: sum.splits)
  have val: "item theta [c, j, 0] =
      (\<Sum>i<n. (\<Sum>k<n. item phi [c, k, j] * item Gi [c, k, i]) *
         ((\<Sum>l<n. item q_sqrt [0, i, l] * Zn [c, l]) + item q_mu [i, 0]))"
    if "c < count" "j < D" for c j
  proof -
    have c0: "(if count = 1 then 0 else c) = c" using that by auto
    show ?thesis
      unfolding th(3) c0 tm(3) using that pT(2)
      by (intro sum.cong refl) (simp add: f(3))
  qed
  show ?thesis using run th(2) val by blast
qed

text \<open>
  C1. Let \<open>phi\<close> have shape \<open>(count, n, D)\<close>, \<open>q_mu\<close> shape \<open>(n, 1)\<close> and \<open>q_sqrt\<close> shape
  \<open>(1, n, n)\<close>; let \<open>Zn\<close> be the standard normal draws of the call, so that
  \<open>f_sample[c,i] = (q_sqrt @ z + q_mu)[c,i] = sum_l q_sqrt[0,i,l] * Zn[c,l] + q_mu[i,0]\<close>.
  When \<open>n \<ge> D\<close> and the inversion of the Gram matrix \<open>G = phi^T @ phi\<close> succeeds with
  \<open>Gi\<close>, the call returns \<open>theta\<close> of shape \<open>(count, D, 1)\<close> with
  \<open>theta = (Gi @ phi^T) @ f_sample\<close>; when \<open>n < D\<close> and the inversion of
  \<open>G = phi @ phi^T\<close> succeeds with \<open>Gi\<close>, it returns \<open>theta = (phi^T @ Gi) @ f_sample\<close>.
  In both cases \<open>G\<close> is the Gram matrix named (its entries are spelled out).
\<close>

theorem C1_theta_formula:
  assumes "shape phi = [count, n, D]"
    and "shape q_mu = [n, 1]"
    and "shape q_sqrt = [1, n, n]"
    and "matrix_transpose phi = Inr phiT"
  shows
    "(D \<le> n \<longrightarrow> (\<forall>G Gi. matmul phiT phi = Inr G \<and> linalg_inv G = Inr Gi \<and> shape Gi = shape G \<longrightarrow>
        shape G = [count, D, D] \<and>
        (\<forall>c<count. \<forall>j<D. \<forall>k<D.
           item G [c, j, k] = (\<Sum>i<n. item phi [c, i, j] * item phi [c, i, k])) \<and>
        (\<exists>theta. sample_theta_variational linalg_inv phi q_mu q_sqrt Zn = Inr theta \<and>
           shape theta = [count, D, 1] \<and>
           (\<forall>c<count. \<forall>j<D. item theta [c, j, 0] =
              (\<Sum>i<n. (\<Sum>k<D. item Gi [c, j, k] * item phi [c, i, k]) *
                 ((\<Sum>l<n. item q_sqrt [0, i, l] * Zn [c, l]) + item q_mu [i, 0])))))) \<and>
     (n < D \<longrightarrow> (\<forall>G Gi. matmul phi phiT = Inr G \<and> linalg_inv G = Inr Gi \<and> shape Gi = shape G \<longrightarrow>
        shape G = [count, n, n] \<and>
        (\<forall>c<count. \<forall>i<n. \<forall>l<n.
           item G [c, i, l] = (\<Sum>k<D. item phi [c, i, k] * item phi [c, l, k])) \<and>
        (\<exists>theta. sample_theta_variational linalg_inv phi q_mu q_sqrt Zn = Inr theta \<and>
           shape theta = [count, D, 1] \<and>
           (\<forall>c<count. \<forall>j<D. item theta [c, j, 0] =
              (\<Sum>i<n. (\<Sum>k<n. item phi [c, k, j] * item Gi [c, k, i]) *
                 ((\<Sum>l<n. item q_sqrt [0, i, l] * Zn [c, l]) + item q_mu [i, 0]))))))"
  apply (rule conjI; intro impI allI; elim conjE; intro conjI)
  subgoal for G Gi by (rule gram_over(1) [OF assms(1,4)])
  subgoal for G Gi by (intro allI impI, rule gram_over(2) [OF assms(1,4)])
  subgoal for G Gi by (rule theta_over [OF assms])
  subgoal for G Gi by (rule gram_under(1) [OF assms(1,4)])
  subgoal for G Gi by (intro allI impI, rule gram_under(2) [OF assms(1,4)])
  subgoal for G Gi by (rule theta_under [OF assms])
  done

theorem C1_theta_formula_witness:
  "(\<exists>theta. sample_theta_variational inv_1x1 (full [1, 1, 1] 2) (zeros [1, 1]) (full [1, 1, 1] 1)
        (constant_draws 3) = Inr theta \<and> shape theta = [1, 1, 1] \<and> item theta [0, 0, 0] = 3 / 2) \<and>
   (\<exists>theta. sample_theta_variational inv_1x1 (full [1, 1, 2] 1) (zeros [1, 1]) (full [1, 1, 1] 1)
        (constant_draws 3) = Inr theta \<and> shape theta = [1, 2, 1] \<and> item theta [0, 1, 0] = 3 / 2)"
proof -
  have sm: "shape (zeros [1, 1]) = [1, 1]" and sq: "shape (full [1, 1, 1] (1::real)) = [1, 1, 1]"
    by (simp_all add: zeros_def full_def)
  have s1: "shape (full [1, 1, 1] (2::real)) = [1, 1, 1]" by (simp add: full_def)
  have t1: "matrix_transpose (full [1, 1, 1] (2::real)) = Inr (full [1, 1, 1] 2)"
    by (simp add: matrix_transpose_def full_def swap_last2_def)
  have g1: "matmul (full [1, 1, 1] 2) (full [1, 1, 1] 2) = Inr (full [1, 1, 1] 4)"
    by (simp add: matmul_def full_def broadcast_shapes_def bindex_def Let_def)
  have i1: "inv_1x1 (full [1, 1, 1] 4) = Inr (full [1, 1, 1] (1 / 4))"
    "shape (full [1, 1, 1] (1 / 4 :: real)) = shape (full [1, 1, 1] (4::real))"
    by (simp_all add: inv_1x1_def full_def)
  have le: "(1::nat) \<le> 1" by simp
  note a1 = C1_theta_formula [OF s1 sm sq t1, of inv_1x1 "constant_draws 3", THEN conjunct1,
      THEN mp, OF le, THEN spec, THEN spec, THEN mp, OF conjI [OF g1 conjI [OF i1]],
      THEN conjunct2, THEN conjunct2]
  have r1: "\<exists>theta. sample_theta_variational inv_1x1 (full [1, 1, 1] 2) (zeros [1, 1])
      (full [1, 1, 1] 1) (constant_draws 3) = Inr theta \<and> shape theta = [1, 1, 1] \<and>
      item theta [0, 0, 0] = 3 / 2"
    using a1
    apply (elim exE conjE)
    subgoal for theta
      apply (rule exI [of _ theta])
      apply (simp add: full_def zeros_def constant_draws_def)
      done
    done
  have s2: "shape (full [1, 1, 2] (1::real)) = [1, 1, 2]" by (simp add: full_def)
  have t2: "matrix_transpose (full [1, 1, 2] (1::real)) = Inr (full [1, 2, 1] 1)"
    by (simp add: matrix_transpose_def full_def swap_last2_def)
  have two: "{..<2::nat} = {0, 1}" by auto
  have g2: "matmul (full [1, 1, 2] 1) (full [1, 2, 1] 1) = Inr (full [1, 1, 1] 2)"
    by (simp add: matmul_def full_def broadcast_shapes_def bindex_def Let_def two)
  have i2: "inv_1x1 (full [1, 1, 1] 2) = Inr (full [1, 1, 1] (1 / 2))"
    "shape (full [1, 1, 1] (1 / 2 :: real)) = shape (full [1, 1, 1] (2::real))"
    by (simp_all add: inv_1x1_def full_def)
  have lt: "(1::nat) < 2" by simp
  note a2 = C1_theta_formula [OF s2 sm sq t2, of inv_1x1 "constant_draws 3", THEN conjunct2,
      THEN mp, OF lt, THEN spec, THEN spec, THEN mp, OF conjI [OF g2 conjI [OF i2]],
      THEN conjunct2, THEN conjunct2]
  have r2: "\<exists>theta. sample_theta_variational inv_1x1 (full [1, 1, 2] 1) (zeros [1, 1])
      (full [1, 1, 1] 1) (constant_draws 3) = Inr theta \<and> shape theta = [1, 2, 1] \<and>
      item theta [0, 1, 0] = 3 / 2"
    using a2
    apply (elim exE conjE)
    subgoal for theta
      apply (rule exI [of _ theta])
      apply (simp add: full_def zeros_def constant_draws_def)
      done
    done
  from r1 r2 show ?thesis by (rule conjI)
qed

subsection \<open>The optimization loop\<close>

lemma optimize_loop_shift:
  "optimize_loop opt loss lo hi r s x prev (tr0 @ tr) =
     map_sum id (\<lambda>(xf, t). (xf, tr0 @ t)) (optimize_loop opt loss lo hi r s x prev tr)"
  by (induction r arbitrary: s x prev tr) (auto split: prod.splits sum.splits)

lemma optimize_loop_Suc:
  "optimize_loop opt loss lo hi (Suc r) s x prev [] =
     (case minimize opt loss lo hi (s, x) of
        (s', x') \<Rightarrow>
          (case loss x' of
             Inl e \<Rightarrow> Inl e
           | Inr cur \<Rightarrow>
               if converged cur prev then Inr (x', [(prev, cur)])
               else map_sum id (\<lambda>(xf, t). (xf, (prev, cur) # t))
                      (optimize_loop opt loss lo hi r s' x' cur [])))"
  using optimize_loop_shift [of opt loss lo hi r _ _ _ "[(prev, _)]" "[]"]
  by (auto split: prod.splits sum.splits)

lemma optimize_loop_trace:
  assumes "optimize_loop opt loss lo hi r s x prev [] = Inr (xf, t)"
  shows "length t \<le> r \<and>
     (\<forall>j<length t. converged (snd (t ! j)) (fst (t ! j)) \<longrightarrow> Suc j = length t) \<and>
     (length t < r \<longrightarrow> t \<noteq> [] \<and> converged (snd (last t)) (fst (last t))) \<and>
     (\<forall>j<length t. fst (t ! j) = (if j = 0 then prev else snd (t ! (j - 1))) \<and>
        loss (snd ((minimize opt loss lo hi ^^ Suc j) (s, x))) = Inr (snd (t ! j))) \<and>
     xf = snd ((minimize opt loss lo hi ^^ length t) (s, x))"
  using assms
proof (induction r arbitrary: s x prev xf t)
  case 0
  then show ?case by simp
next
  case (Suc r)
  obtain s' x' where m: "minimize opt loss lo hi (s, x) = (s', x')" by force
  from Suc.prems m obtain cur where cur: "loss x' = Inr cur"
    by (auto simp: optimize_loop_Suc simp del: optimize_loop.simps split: sum.splits)
  show ?case
  proof (cases "converged cur prev")
    case True
    with Suc.prems m cur have "xf = x'" "t = [(prev, cur)]"
      by (auto simp: optimize_loop_Suc simp del: optimize_loop.simps)
    with True m cur show ?thesis by simp
  next
    case False
    with Suc.prems m cur have
      "map_sum id (\<lambda>(xf, t). (xf, (prev, cur) # t)) (optimize_loop opt loss lo hi r s' x' cur []) =
         Inr (xf, t)"
      by (simp add: optimize_loop_Suc del: optimize_loop.simps)
    then obtain t' where
      rec: "optimize_loop opt loss lo hi r s' x' cur [] = Inr (xf, t')" and t: "t = (prev, cur) # t'"
      by (cases "optimize_loop opt loss lo hi r s' x' cur []") auto
    note IH = Suc.IH [OF rec]
    have pow: "\<And>k. (minimize opt loss lo hi ^^ Suc k) (s, x) = (minimize opt loss lo hi ^^ k) (s', x')"
      using m by (simp add: funpow_swap1)
    show ?thesis
    proof (intro conjI allI impI)
      show "length t \<le> Suc r" using IH t by simp
      show "Suc j = length t" if "j < length t" "converged (snd (t ! j)) (fst (t ! j))" for j
        using that IH t False by (cases j) auto
      show "t \<noteq> []" if "length t < Suc r" using t by simp
      show "converged (snd (last t)) (fst (last t))" if "length t < Suc r"
        using that IH t by auto
      show "fst (t ! j) = (if j = 0 then prev else snd (t ! (j - 1)))" if "j < length t" for j
        using that IH t by (cases j) (auto simp: nth_Cons split: nat.splits)
      show "loss (snd ((minimize opt loss lo hi ^^ Suc j) (s, x))) = Inr (snd (t ! j))"
        if "j < length t" for j
      proof (cases j)
        case 0
        then show ?thesis using m cur t by simp
      next
        case (Suc k)
        then show ?thesis using that IH t pow [of "Suc k"] by simp
      qed
      show "xf = snd ((minimize opt loss lo hi ^^ length t) (s, x))"
        using IH t pow [of "length t'"] by simp
    qed
  qed
qed

subsection \<open>Selecting the maximizers\<close>

lemma argmax_upto_le: "argmax_upto f k \<le> k"
  by (induction k) (auto simp: Let_def)

lemma argmax_upto_max: "i \<le> k \<Longrightarrow> f i \<le> f (argmax_upto f k)"
proof (induction k)
  case 0
  then show ?case by simp
next
  case (Suc k)
  then show ?case
    by (cases "i = Suc k") (auto simp: Let_def intro: order_trans less_imp_le)
qed

lemma argmax_upto_first: "i < argmax_upto f k \<Longrightarrow> f i < f (argmax_upto f k)"
proof (induction k)
  case 0
  then show ?case by simp
next
  case (Suc k)
  show ?case
  proof (cases "f (argmax_upto f k) < f (Suc k)")
    case True
    then have e: "argmax_upto f (Suc k) = Suc k" by (simp add: Let_def)
    with Suc.prems have "i \<le> k" by simp
    then have "f i \<le> f (argmax_upto f k)" by (rule argmax_upto_max)
    with True e show ?thesis by simp
  next
    case False
    then have e: "argmax_upto f (Suc k) = argmax_upto f k" by (simp add: Let_def)
    with Suc show ?thesis by simp
  qed
qed

lemma index_space_one: "set (index_space [n]) = {[i] | i. i < n}"
  by auto

lemma squeeze_Inr:
  assumes "squeeze T axis = Inr S"
  shows "axis < length (shape T)" "shape T ! axis = 1" "shape S = remove_at axis (shape T)"
    "\<And>idx. item S idx = item T (insert_at axis 0 idx)"
  using assms by (auto simp: squeeze_def split: if_splits)

lemma argmax_Inr:
  assumes "argmax T axis = Inr A"
  shows "axis < length (shape T)" "0 < shape T ! axis" "shape A = remove_at axis (shape T)"
    "\<And>idx. item A idx =
       int (argmax_upto (\<lambda>j. item T (insert_at axis j idx)) (shape T ! axis - 1))"
  using assms by (auto simp: argmax_def split: if_splits)

lemma stack2_Inr:
  assumes "stack2 A B = Inr S"
  shows "shape A = shape B" "shape S = 2 # shape A"
    "\<And>k idx. item S (k # idx) = (if k = 0 then item A idx else item B idx)"
  using assms by (auto simp: stack2_def split: if_splits)

lemma rank3_from_removals:
  assumes "2 < length s" "remove_at 1 (remove_at 2 s) = [c]"
  shows "\<exists>m o'. s = [c, m, o']"
proof -
  from assms(1) obtain a m o' rest where s: "s = a # m # o' # rest"
    by (cases s; cases "tl s"; cases "tl (tl s)") auto
  with assms(2) show ?thesis by (simp add: remove_at_def)
qed

lemma gather_nd_pairs:
  assumes "gather_nd P I = Inr M" "shape I = [count, 2]"
  shows "shape M = count # drop 2 (shape P)"
    "\<And>c rest. item M (c # rest) = item P (nat (item I [c, 0]) # nat (item I [c, 1]) # rest)"
proof -
  have two: "[0..<2] = [0, Suc 0]" by (simp add: upt_rec)
  from assms have M: "M = \<lparr>shape = [count] @ drop 2 (shape P),
      item = (\<lambda>idx. item P (map (\<lambda>k. nat (item I (take (length [count]) idx @ [k]))) [0..<2] @
                   drop (length [count]) idx))\<rparr>"
    by (simp add: gather_nd_def Let_def split: if_splits)
  show "shape M = count # drop 2 (shape P)" by (simp add: M)
  show "item M (c # rest) = item P (nat (item I [c, 0]) # nat (item I [c, 1]) # rest)" for c rest
    by (simp add: M two)
qed

lemma ebind_InrE:
  assumes "ebind m f = Inr y"
  obtains x where "m = Inr x" "f x = Inr y"
  using assms by (cases m) auto

lemma select_maximizers_Inr:
  assumes "select_maximizers x_star W b theta count = Inr M"
  shows "\<exists>phi fv m. fourier_features x_star W b = Inr phi \<and> matmul phi theta = Inr fv \<and>
     shape fv = [count, m, 1] \<and> 0 < m \<and> shape M = count # drop 2 (shape x_star) \<and>
     (\<forall>c<count. \<exists>j<m.
        (\<forall>i<m. item fv [c, i, 0] \<le> item fv [c, j, 0]) \<and>
        (\<forall>i<j. item fv [c, i, 0] < item fv [c, j, 0]) \<and>
        (\<forall>rest. item M (c # rest) = item x_star (c # j # rest)))"
proof -
  from assms obtain phi fv fvals am st where
    phi: "fourier_features x_star W b = Inr phi" and fv: "matmul phi theta = Inr fv"
    and sq: "squeeze fv 2 = Inr fvals" and am: "argmax fvals 1 = Inr am"
    and st: "stack2 (tf_range count) am = Inr st"
    and g: "gather_nd x_star (transpose_all st) = Inr M"
    unfolding select_maximizers_def
    by (elim ebind_InrE) blast
  note sqf = squeeze_Inr [OF sq] and amf = argmax_Inr [OF am] and stf = stack2_Inr [OF st]
  have "remove_at 1 (remove_at 2 (shape fv)) = [count]"
    using stf(1) amf(3) sqf(3) by (simp add: tf_range_def)
  from rank3_from_removals [OF sqf(1) this] obtain m o' where "shape fv = [count, m, o']"
    by (elim exE)
  with sqf(2) have sfv: "shape fv = [count, m, 1]" by simp
  then have sfvals: "shape fvals = [count, m]" using sqf(3) by (simp add: remove_at_def)
  with amf(2) have m: "0 < m" by simp
  define J where "J c = argmax_upto (\<lambda>j. item fv [c, j, 0]) (m - 1)" for c
  have amv: "item am [c] = int (J c)" for c
    by (simp add: amf(4) sfvals sqf(4) insert_at_def J_def)
  have idx: "item (transpose_all st) [c, k] = (if k = 0 then int c else int (J c))" for c k
    by (simp add: transpose_all_def stf(3) tf_range_def amv)
  have sidx: "shape (transpose_all st) = [count, 2]"
    by (simp add: transpose_all_def stf(2) tf_range_def)
  note gf = gather_nd_pairs [OF g sidx]
  have sM: "shape M = count # drop 2 (shape x_star)" by (rule gf(1))
  have iM: "item M (c # rest) = item x_star (c # J c # rest)" for c rest
    by (simp add: gf(2) idx)
  have "\<exists>j<m. (\<forall>i<m. item fv [c, i, 0] \<le> item fv [c, j, 0]) \<and>
        (\<forall>i<j. item fv [c, i, 0] < item fv [c, j, 0]) \<and>
        (\<forall>rest. item M (c # rest) = item x_star (c # j # rest))" for c
  proof (intro exI [of _ "J c"] conjI allI impI)
    show "J c < m" using m argmax_upto_le [of "\<lambda>j. item fv [c, j, 0]" "m - 1"] by (simp add: J_def)
    show "item fv [c, i, 0] \<le> item fv [c, J c, 0]" if "i < m" for i
      unfolding J_def using that by (intro argmax_upto_max) simp
    show "item fv [c, i, 0] < item fv [c, J c, 0]" if "i < J c" for i
      using that unfolding J_def by (rule argmax_upto_first)
    show "item M (c # rest) = item x_star (c # J c # rest)" for rest by (rule iM)
  qed
  with phi fv sfv m sM show ?thesis by blast
qed

subsection \<open>A returning call of the search, step by step\<close>

lemma sample_maximizers_trace_InrE:
  assumes "sample_maximizers_trace linalg_inv opt s0 rng Ux X count n_init D model lo hi num_steps =
     Inr (M, trace)"
  obtains Xt phi W b theta prev x_star where
    "tile (expand_dims_first X) [count, 1, 1] = Inr Xt"
    "fst (sample_features_weights linalg_inv Xt model D rng) = Inr (phi, W, b, theta)"
    "construct_maximizer_objective W b theta (random_uniform [count, n_init, shape X ! 1] lo hi Ux) =
       Inr prev"
    "optimize_loop opt (construct_maximizer_objective W b theta) lo hi
       (case num_steps of None \<Rightarrow> default_num_steps | Some k \<Rightarrow> k) s0
       (random_uniform [count, n_init, shape X ! 1] lo hi Ux) prev [] = Inr (x_star, trace)"
    "select_maximizers x_star W b theta count = Inr M"
proof -
  from assms have r: "\<not> length (shape X) < 2" 
    by (auto simp: sample_maximizers_trace_def split: if_splits)
  from assms r obtain Xt where Xt: "tile (expand_dims_first X) [count, 1, 1] = Inr Xt"
    and 1: "ebind (fst (sample_features_weights linalg_inv Xt model D rng)) (\<lambda>(phi, W, b, theta).
        let loss = construct_maximizer_objective W b theta;
            x0 = random_uniform [count, n_init, shape X ! 1] lo hi Ux in
        ebind (loss x0) (\<lambda>prev_loss.
        ebind (optimize_loop opt loss lo hi
                 (case num_steps of None \<Rightarrow> default_num_steps | Some k \<Rightarrow> k) s0 x0 prev_loss [])
          (\<lambda>(x_star, trace).
        ebind (select_maximizers x_star W b theta count) (\<lambda>maximizers.
        Inr (maximizers, trace))))) = Inr (M, trace)"
    unfolding sample_maximizers_trace_def Let_def by (simp split: if_splits) (erule ebind_InrE)
  from 1 obtain smp where smp: "fst (sample_features_weights linalg_inv Xt model D rng) = Inr smp"
    and 2: "(\<lambda>(phi, W, b, theta).
        let loss = construct_maximizer_objective W b theta;
            x0 = random_uniform [count, n_init, shape X ! 1] lo hi Ux in
        ebind (loss x0) (\<lambda>prev_loss.
        ebind (optimize_loop opt loss lo hi
                 (case num_steps of None \<Rightarrow> default_num_steps | Some k \<Rightarrow> k) s0 x0 prev_loss [])
          (\<lambda>(x_star, trace).
        ebind (select_maximizers x_star W b theta count) (\<lambda>maximizers.
        Inr (maximizers, trace))))) smp = Inr (M, trace)"
    by (erule ebind_InrE)
  obtain phi W b theta where s: "smp = (phi, W, b, theta)" by (cases smp) auto
  from 2 obtain prev where prev:
    "construct_maximizer_objective W b theta (random_uniform [count, n_init, shape X ! 1] lo hi Ux) =
       Inr prev"
    and 3: "ebind (optimize_loop opt (construct_maximizer_objective W b theta) lo hi
                 (case num_steps of None \<Rightarrow> default_num_steps | Some k \<Rightarrow> k) s0
                 (random_uniform [count, n_init, shape X ! 1] lo hi Ux) prev [])
          (\<lambda>(x_star, trace).
        ebind (select_maximizers x_star W b theta count) (\<lambda>maximizers.
        Inr (maximizers, trace))) = Inr (M, trace)"
    unfolding s Let_def by simp (erule ebind_InrE)
  from 3 obtain res where res: "optimize_loop opt (construct_maximizer_objective W b theta) lo hi
                 (case num_steps of None \<Rightarrow> default_num_steps | Some k \<Rightarrow> k) s0
                 (random_uniform [count, n_init, shape X ! 1] lo hi Ux) prev [] = Inr res"
    and 4: "(\<lambda>(x_star, trace).
        ebind (select_maximizers x_star W b theta count) (\<lambda>maximizers.
        Inr (maximizers, trace))) res = Inr (M, trace)"
    by (erule ebind_InrE)
  obtain x_star tr where rs: "res = (x_star, tr)" by (cases res) auto
  from 4 have "select_maximizers x_star W b theta count = Inr M \<and> tr = trace"
    unfolding rs by simp (erule ebind_InrE, simp)
  with that [OF Xt smp [unfolded s] prev] res rs show thesis by simp
qed

lemma clip_in_box:
  "lo \<le> hi \<Longrightarrow> lo \<le> item (clip_by_value T lo hi) idx \<and> item (clip_by_value T lo hi) idx \<le> hi"
  by (simp add: clip_by_value_def tmap_def)

lemma minimize_in_box:
  "lo \<le> hi \<Longrightarrow> minimize opt loss lo hi sx = (s', x') \<Longrightarrow> lo \<le> item x' idx \<and> item x' idx \<le> hi"
  by (auto simp: minimize_def clip_in_box split: prod.splits)

lemma optimize_loop_in_box:
  assumes "lo \<le> hi" "\<forall>idx. lo \<le> item x idx \<and> item x idx \<le> hi"
    "optimize_loop opt loss lo hi r s x prev tr = Inr (xf, t)"
  shows "\<forall>idx. lo \<le> item xf idx \<and> item xf idx \<le> hi"
  using assms(2,3)
proof (induction r arbitrary: s x prev tr)
  case 0
  then show ?case by simp
next
  case (Suc r)
  obtain s' x' where m: "minimize opt loss lo hi (s, x) = (s', x')" by force
  have box: "\<forall>idx. lo \<le> item x' idx \<and> item x' idx \<le> hi"
    using minimize_in_box [OF assms(1) m] by simp
  from Suc.prems(2) m obtain cur where cur: "loss x' = Inr cur"
    by (auto split: sum.splits)
  show ?case
  proof (cases "converged cur prev")
    case True
    with Suc.prems(2) m cur box show ?thesis by simp
  next
    case False
    with Suc.prems(2) m cur
    have "optimize_loop opt loss lo hi r s' x' cur (tr @ [(prev, cur)]) = Inr (xf, t)" by simp
    from Suc.IH [OF box this] show ?thesis .
  qed
qed

lemma random_uniform_in_box:
  assumes "lo \<le> hi" "0 \<le> U idx" "U idx < 1"
  shows "lo \<le> item (random_uniform s lo hi U) idx \<and> item (random_uniform s lo hi U) idx \<le> hi"
proof -
  have "U idx * (hi - lo) \<le> 1 * (hi - lo)"
    using assms by (intro mult_right_mono) auto
  moreover have "0 \<le> U idx * (hi - lo)" using assms by simp
  ultimately show ?thesis by (simp add: random_uniform_def)
qed

lemma gather_nd_items:
  assumes "gather_nd P I = Inr M"
  shows "\<exists>idx'. item M idx = item P idx'"
  using assms by (auto simp: gather_nd_def Let_def split: if_splits)

lemma select_maximizers_items:
  assumes "select_maximizers x_star W b theta count = Inr M"
  shows "\<exists>idx'. item M idx = item x_star idx'"
proof -
  from assms obtain st where "gather_nd x_star (transpose_all st) = Inr M"
    unfolding select_maximizers_def by (elim ebind_InrE) blast
  then show ?thesis by (rule gather_nd_items)
qed

lemma converged_finite:
  "converged (Fin c) (Fin p) \<longleftrightarrow> p \<noteq> 0 \<and> \<bar>c - p\<bar> / \<bar>p\<bar> < 1 / 10 ^ 7"
  by (simp add: converged_def rel_change_def np_sub_def np_div_def np_abs_def np_less_def)



lemma matmul_rows:
  assumes "matmul A B = Inr C"
  shows "shape C ! (length (shape C) - 2) = shape A ! (length (shape A) - 2)"
  using assms
  by (auto simp: matmul_def Let_def nth_append split: if_splits option.splits)

subsection \<open>A worked example of the search\<close>

lemma example_tile: "tile (expand_dims_first (zeros [1, 1])) [1, 1, 1] = Inr (zeros [1, 1, 1])"
  by (simp add: tile_def expand_dims_first_def zeros_def full_def)

lemma example_attempt:
  "sample_attempt inv_1x1 (zeros [1, 1, 1]) unit_model 1 zero_draws =
     Inr (full [1, 1, 1] (sqrt 2), zeros [1, 1, 1], zeros [1, 1, 1], full [1, 1, 1] (sqrt 2 / 2))"
  by (simp add: eval_defs inv_1x1_def)

lemma example_sample:
  "sample_features_weights inv_1x1 (zeros [1, 1, 1]) unit_model 1 (\<lambda>k. zero_draws) =
     (Inr (full [1, 1, 1] (sqrt 2), zeros [1, 1, 1], zeros [1, 1, 1], full [1, 1, 1] (sqrt 2 / 2)), 1)"
  unfolding sample_features_weights_def
  by (subst retry_loop.simps) (simp only: example_attempt, simp)

lemma index_space_121: "index_space [1, 2, 1] = [[0, 0, 0], [0, 1, 0]]"
  by (simp add: upt_rec eval_nat_numeral)

lemma example_features:
  assumes "shape x = [1, 2, 1]"
  shows "fourier_features x (zeros [1, 1, 1]) (zeros [1, 1, 1]) = Inr (full [1, 2, 1] (sqrt 2))"
  using assms
  by (simp add: fourier_features_def matrix_transpose_def swap_last2_def matmul_def tadd_def
      broadcast_shapes_def bindex_def py_truediv_def tmap_def zeros_def full_def Let_def)

lemma example_fvals:
  "matmul (full [1, 2, 1] (sqrt 2)) (full [1, 1, 1] (sqrt 2 / 2)) = Inr (full [1, 2, 1] 1)"
  by (simp add: matmul_def broadcast_shapes_def bindex_def full_def Let_def)

lemma example_mean: "np_neg (reduce_mean (full [1, 2, 1] 1)) = Fin (- 1)"
proof -
  have "shape (full [1, 2, 1] (1::real)) = [1, 2, 1]" by (simp add: full_def)
  then show ?thesis
    unfolding reduce_mean_def Let_def
    by (simp only: index_space_121) (simp add: np_neg_def full_def)
qed

lemma example_loss:
  assumes "shape x = [1, 2, 1]"
  shows "construct_maximizer_objective (zeros [1, 1, 1]) (zeros [1, 1, 1])
           (full [1, 1, 1] (sqrt 2 / 2)) x = Inr (Fin (- 1))"
  unfolding construct_maximizer_objective_def
  by (simp only: example_features [OF assms] example_fvals example_mean ebind_Inr)

lemma example_converged: "converged (Fin (- 1)) (Fin (- 1))"
  by (simp add: converged_def rel_change_def np_sub_def np_div_def np_abs_def np_less_def)

lemma example_shapes:
  "shape (random_uniform [1, 2, 1] 0 1 quarter_draws) = [1, 2, 1]"
  "shape (clip_by_value (random_uniform [1, 2, 1] 0 1 quarter_draws) 0 1) = [1, 2, 1]"
  by (simp_all add: clip_by_value_def tmap_def random_uniform_def)

lemma example_minimize:
  "minimize idle_optimizer loss 0 1 ((), random_uniform [1, 2, 1] 0 1 quarter_draws) =
     ((), clip_by_value (random_uniform [1, 2, 1] 0 1 quarter_draws) 0 1)"
  by (simp add: minimize_def idle_optimizer_def)

lemma example_loop:
  "optimize_loop idle_optimizer
     (construct_maximizer_objective (zeros [1, 1, 1]) (zeros [1, 1, 1]) (full [1, 1, 1] (sqrt 2 / 2)))
     0 1 3 () (random_uniform [1, 2, 1] 0 1 quarter_draws) (Fin (- 1)) [] =
   Inr (clip_by_value (random_uniform [1, 2, 1] 0 1 quarter_draws) 0 1, [(Fin (- 1), Fin (- 1))])"
proof -
  have three: "(3::nat) = Suc 2" by simp
  show ?thesis
    unfolding three optimize_loop.simps
    by (simp only: example_minimize prod.case example_loss [OF example_shapes(2)] sum.case
        example_converged if_True append_Nil)
qed

lemma example_select:
  "\<exists>M. select_maximizers (clip_by_value (random_uniform [1, 2, 1] 0 1 quarter_draws) 0 1)
     (zeros [1, 1, 1]) (zeros [1, 1, 1]) (full [1, 1, 1] (sqrt 2 / 2)) 1 = Inr M \<and>
     shape M = [1, 1] \<and> item M [0, 0] = 1 / 4"
proof -
  let ?x = "clip_by_value (random_uniform [1, 2, 1] 0 1 quarter_draws) 0 1"
  have two: "[0..<2] = [0, Suc 0]" by (simp add: upt_rec)
  have sq: "squeeze (full [1, 2, 1] (1::real)) 2 = Inr (full [1, 2] 1)"
    by (simp add: squeeze_def full_def remove_at_def)
  have am: "argmax (full [1, 2] 1) 1 = Inr (full [1] 0)"
    by (simp add: argmax_def full_def remove_at_def insert_at_def Let_def)
  have g: "\<exists>M. ebind (stack2 (tf_range 1) (full [1] 0))
        (\<lambda>st. gather_nd ?x (transpose_all st)) = Inr M \<and>
      shape M = [1, 1] \<and> item M [0, 0] = 1 / 4"
    by (simp add: stack2_def tf_range_def full_def transpose_all_def gather_nd_def Let_def two
        clip_by_value_def tmap_def random_uniform_def quarter_draws_def)
  show ?thesis
    unfolding select_maximizers_def
    by (simp only: example_features [OF example_shapes(2)] example_fvals sq am ebind_Inr)
      (rule g)
qed

lemma example_run:
  "\<exists>M. sample_maximizers_trace inv_1x1 idle_optimizer () (\<lambda>k. zero_draws) quarter_draws (zeros [1, 1])
       1 2 1 unit_model 0 1 (Some 3) = Inr (M, [(Fin (- 1), Fin (- 1))]) \<and>
     shape M = [1, 1] \<and> item M [0, 0] = 1 / 4"
proof -
  have sx: "\<not> length (shape (zeros [1, 1])) < 2" "shape (zeros [1, 1]) ! 1 = 1"
    by (simp_all add: zeros_def full_def)
  from example_select obtain M where M:
    "select_maximizers (clip_by_value (random_uniform [1, 2, 1] 0 1 quarter_draws) 0 1)
     (zeros [1, 1, 1]) (zeros [1, 1, 1]) (full [1, 1, 1] (sqrt 2 / 2)) 1 = Inr M"
    "shape M = [1, 1]" "item M [0, 0] = 1 / 4" by blast
  have "sample_maximizers_trace inv_1x1 idle_optimizer () (\<lambda>k. zero_draws) quarter_draws (zeros [1, 1])
       1 2 1 unit_model 0 1 (Some 3) = Inr (M, [(Fin (- 1), Fin (- 1))])"
    unfolding sample_maximizers_trace_def Let_def
    by (simp only: sx if_False example_tile example_sample ebind_Inr fst_conv case_prod_conv
        example_loss [OF example_shapes(1)] option.case example_loop M(1))
  with M(2,3) show ?thesis by blast
qed

lemma example_caller:
  "\<exists>M. sample_maximizers inv_1x1 idle_optimizer () (\<lambda>k. zero_draws) quarter_draws (zeros [1, 1])
       1 2 1 unit_model 0 1 (Some 3) = Inr M"
proof -
  from example_run obtain M where
    "sample_maximizers_trace inv_1x1 idle_optimizer () (\<lambda>k. zero_draws) quarter_draws (zeros [1, 1])
       1 2 1 unit_model 0 1 (Some 3) = Inr (M, [(Fin (- 1), Fin (- 1))])" by blast
  then show ?thesis unfolding sample_maximizers_def by simp
qed

lemma quarter_draws_unit: "\<forall>idx. 0 \<le> quarter_draws idx \<and> quarter_draws idx < 1"
  by (simp add: quarter_draws_def)

lemma example_select_first:
  assumes s: "shape x = [1, 2, 1]"
  shows "\<exists>M. select_maximizers x (zeros [1, 1, 1]) (zeros [1, 1, 1]) (full [1, 1, 1] (sqrt 2 / 2)) 1 =
           Inr M \<and> shape M = [1, 1] \<and> item M [0, 0] = item x [0, 0, 0]"
proof -
  have two: "[0..<2] = [0, Suc 0]" by (simp add: upt_rec)
  have sq: "squeeze (full [1, 2, 1] (1::real)) 2 = Inr (full [1, 2] 1)"
    by (simp add: squeeze_def full_def remove_at_def)
  have am: "argmax (full [1, 2] 1) 1 = Inr (full [1] 0)"
    by (simp add: argmax_def full_def remove_at_def insert_at_def Let_def)
  have g: "\<exists>M. ebind (stack2 (tf_range 1) (full [1] 0))
        (\<lambda>st. gather_nd x (transpose_all st)) = Inr M \<and>
      shape M = [1, 1] \<and> item M [0, 0] = item x [0, 0, 0]"
    using s
    by (simp add: stack2_def tf_range_def full_def transpose_all_def gather_nd_def Let_def two)
  show ?thesis
    unfolding select_maximizers_def
    by (simp only: example_features [OF s] example_fvals sq am ebind_Inr) (rule g)
qed

lemma inverted_box_run:
  "\<exists>M. sample_maximizers inv_1x1 idle_optimizer () (\<lambda>k. zero_draws) quarter_draws (zeros [1, 1])
       1 2 1 unit_model 1 0 (Some 0) = Inr M \<and> item M [0, 0] = 3 / 4"
proof -
  let ?x = "random_uniform [1, 2, 1] 1 0 quarter_draws"
  have sx: "\<not> length (shape (zeros [1, 1])) < 2" "shape (zeros [1, 1]) ! 1 = 1"
    by (simp_all add: zeros_def full_def)
  have s: "shape ?x = [1, 2, 1]" by (simp add: random_uniform_def)
  from example_select_first [OF s] obtain M where M:
    "select_maximizers ?x (zeros [1, 1, 1]) (zeros [1, 1, 1]) (full [1, 1, 1] (sqrt 2 / 2)) 1 = Inr M"
    "item M [0, 0] = item ?x [0, 0, 0]" by blast
  have v: "item ?x [0, 0, 0] = 3 / 4" by (simp add: random_uniform_def quarter_draws_def)
  have "sample_maximizers inv_1x1 idle_optimizer () (\<lambda>k. zero_draws) quarter_draws (zeros [1, 1])
       1 2 1 unit_model 1 0 (Some 0) = Inr M"
    unfolding sample_maximizers_def sample_maximizers_trace_def Let_def
    by (simp only: sx if_False example_tile example_sample ebind_Inr fst_conv case_prod_conv
        example_loss [OF s] option.case optimize_loop.simps M(1))
  with M(2) v show ?thesis by simp
qed

subsection \<open>Claims about the search\<close>

text \<open>
  C6 (as amended). Let the bounds be ordered, \<open>min_val \<le> max_val\<close>, and let the uniform draws for the
  initial candidates lie in \<open>[0, 1)\<close>, as \<open>tf.random.uniform\<close> promises. Then for every
  call of \<open>sample_maximizers\<close> that returns, whatever \<open>count\<close>, \<open>n_init\<close>, the number of
  steps and the optimizer's update are, every entry of the returned array lies in
  \<open>[min_val, max_val]\<close>: the candidates start inside the box, are clipped into it after
  every update, and the result is gathered from them.
\<close>

theorem C6_box_constraint:
  assumes "min_val \<le> max_val"
    and "\<forall>idx. 0 \<le> Ux idx \<and> Ux idx < 1"
    and "sample_maximizers linalg_inv opt s0 rng Ux X count n_init D model min_val max_val num_steps
           = Inr maximizers"
  shows "\<forall>idx. min_val \<le> item maximizers idx \<and> item maximizers idx \<le> max_val"
proof
  fix idx
  from assms(3) obtain trace where
    "sample_maximizers_trace linalg_inv opt s0 rng Ux X count n_init D model min_val max_val num_steps
       = Inr (maximizers, trace)"
    unfolding sample_maximizers_def by (elim ebind_InrE) (auto split: prod.splits)
  then obtain W b theta prev x_star where
    loop: "optimize_loop opt (construct_maximizer_objective W b theta) min_val max_val
       (case num_steps of None \<Rightarrow> default_num_steps | Some k \<Rightarrow> k) s0
       (random_uniform [count, n_init, shape X ! 1] min_val max_val Ux) prev [] = Inr (x_star, trace)"
    and sel: "select_maximizers x_star W b theta count = Inr maximizers"
    by (rule sample_maximizers_trace_InrE)
  have "\<forall>idx. min_val \<le> item (random_uniform [count, n_init, shape X ! 1] min_val max_val Ux) idx \<and>
      item (random_uniform [count, n_init, shape X ! 1] min_val max_val Ux) idx \<le> max_val"
    using random_uniform_in_box [OF assms(1)] assms(2) by blast
  from optimize_loop_in_box [OF assms(1) this loop]
  have box: "\<forall>idx. min_val \<le> item x_star idx \<and> item x_star idx \<le> max_val" .
  from select_maximizers_items [OF sel, of idx] obtain idx' where
    "item maximizers idx = item x_star idx'" by blast
  with box show "min_val \<le> item maximizers idx \<and> item maximizers idx \<le> max_val" by simp
qed

theorem C6_box_constraint_witness:
  "\<exists>M. sample_maximizers inv_1x1 idle_optimizer () (\<lambda>k. zero_draws) quarter_draws (zeros [1, 1])
       1 2 1 unit_model 0 1 (Some 3) = Inr M \<and> 0 \<le> item M [0, 0] \<and> item M [0, 0] \<le> 1"
proof -
  from example_caller obtain M where
    M: "sample_maximizers inv_1x1 idle_optimizer () (\<lambda>k. zero_draws) quarter_draws (zeros [1, 1])
       1 2 1 unit_model 0 1 (Some 3) = Inr M" by blast
  have le: "(0::real) \<le> 1" by simp
  from C6_box_constraint [OF le quarter_draws_unit M] have "0 \<le> item M [0, 0] \<and> item M [0, 0] \<le> 1"
    by (rule spec)
  with M show ?thesis by blast
qed

text \<open>
  C6 as stated fails when the bounds are inverted: with \<open>min_val = 1\<close>, \<open>max_val = 0\<close>
  and no optimization step the call returns the initial candidate \<open>3/4\<close>, which is
  not in the (empty) interval \<open>[1, 0]\<close>.
\<close>

theorem C6_inverted_bounds_counterexample:
  "\<exists>M. sample_maximizers inv_1x1 idle_optimizer () (\<lambda>k. zero_draws) quarter_draws (zeros [1, 1])
       1 2 1 unit_model 1 0 (Some 0) = Inr M \<and> \<not> (1 \<le> item M [0, 0] \<and> item M [0, 0] \<le> 0)"
proof -
  from inverted_box_run obtain M where
    "sample_maximizers inv_1x1 idle_optimizer () (\<lambda>k. zero_draws) quarter_draws (zeros [1, 1])
       1 2 1 unit_model 1 0 (Some 0) = Inr M" "item M [0, 0] = 3 / 4" by blast
  then show ?thesis by (intro exI [of _ M]) simp
qed


text \<open>
  C7. In every call that returns, the trace of the optimization loop (one entry
  \<open>(prev_loss, current_loss)\<close> per gradient update) has length at most \<open>num_steps\<close>,
  which is 3000 when the argument is omitted. Entry \<open>j\<close> compares the loss after
  \<open>j + 1\<close> updates with the loss after \<open>j\<close> updates. The loop stops as soon as the test
  \<open>abs((current_loss - prev_loss) / prev_loss) < 1e-7\<close> holds: an entry that satisfies
  it is the last one, and a loop that made fewer than \<open>num_steps\<close> updates ended on
  such an entry. On finite losses the test is
  \<open>prev_loss \<noteq> 0\<close> and \<open>|current_loss - prev_loss| / |prev_loss| < 1e-7\<close>.
\<close>

theorem C7_step_budget_and_early_stop:
  assumes "sample_maximizers_trace linalg_inv opt s0 rng Ux X count n_init D model min_val max_val
             num_steps = Inr (maximizers, trace)"
  shows "\<exists>Xt phi W b theta prev.
     tile (expand_dims_first X) [count, 1, 1] = Inr Xt \<and>
     fst (sample_features_weights linalg_inv Xt model D rng) = Inr (phi, W, b, theta) \<and>
     construct_maximizer_objective W b theta
       (random_uniform [count, n_init, shape X ! 1] min_val max_val Ux) = Inr prev \<and>
     length trace \<le> (case num_steps of None \<Rightarrow> 3000 | Some k \<Rightarrow> k) \<and>
     (\<forall>j<length trace.
        fst (trace ! j) = (if j = 0 then prev else snd (trace ! (j - 1))) \<and>
        construct_maximizer_objective W b theta
          (snd ((minimize opt (construct_maximizer_objective W b theta) min_val max_val ^^ Suc j)
             (s0, random_uniform [count, n_init, shape X ! 1] min_val max_val Ux))) =
          Inr (snd (trace ! j))) \<and>
     (\<forall>j<length trace. converged (snd (trace ! j)) (fst (trace ! j)) \<longrightarrow> Suc j = length trace) \<and>
     (length trace < (case num_steps of None \<Rightarrow> 3000 | Some k \<Rightarrow> k) \<longrightarrow>
        trace \<noteq> [] \<and> converged (snd (last trace)) (fst (last trace))) \<and>
     (\<forall>c p. converged (Fin c) (Fin p) \<longleftrightarrow> p \<noteq> 0 \<and> \<bar>c - p\<bar> / \<bar>p\<bar> < 1 / 10 ^ 7)"
proof -
  from assms obtain Xt phi W b theta prev x_star where
    til: "tile (expand_dims_first X) [count, 1, 1] = Inr Xt"
    and smp: "fst (sample_features_weights linalg_inv Xt model D rng) = Inr (phi, W, b, theta)"
    and prev: "construct_maximizer_objective W b theta
       (random_uniform [count, n_init, shape X ! 1] min_val max_val Ux) = Inr prev"
    and loop: "optimize_loop opt (construct_maximizer_objective W b theta) min_val max_val
       (case num_steps of None \<Rightarrow> default_num_steps | Some k \<Rightarrow> k) s0
       (random_uniform [count, n_init, shape X ! 1] min_val max_val Ux) prev [] = Inr (x_star, trace)"
    by (rule sample_maximizers_trace_InrE)
  have d: "(case num_steps of None \<Rightarrow> default_num_steps | Some k \<Rightarrow> k) =
      (case num_steps of None \<Rightarrow> 3000 | Some k \<Rightarrow> k)"
    by (cases num_steps) (simp_all add: default_num_steps_def)
  note t = optimize_loop_trace [OF loop, unfolded d]
  show ?thesis
    apply (rule exI [of _ Xt], rule exI [of _ phi], rule exI [of _ W], rule exI [of _ b],
        rule exI [of _ theta], rule exI [of _ prev])
    apply (intro conjI)
           apply (rule til)
          apply (rule smp)
         apply (rule prev)
        apply (rule t [THEN conjunct1])
       apply (rule t [THEN conjunct2, THEN conjunct2, THEN conjunct2, THEN conjunct1])
      apply (rule t [THEN conjunct2, THEN conjunct1])
     apply (rule t [THEN conjunct2, THEN conjunct2, THEN conjunct1])
    apply (intro allI, rule converged_finite)
    done
qed

theorem C7_step_budget_and_early_stop_witness:
  "\<exists>M. sample_maximizers_trace inv_1x1 idle_optimizer () (\<lambda>k. zero_draws) quarter_draws (zeros [1, 1])
       1 2 1 unit_model 0 1 (Some 3) = Inr (M, [(Fin (- 1), Fin (- 1))]) \<and>
     length [(Fin (- 1), Fin (- 1))] \<le> (3::nat) \<and> converged (Fin (- 1)) (Fin (- 1))"
proof -
  from example_run obtain M where
    run: "sample_maximizers_trace inv_1x1 idle_optimizer () (\<lambda>k. zero_draws) quarter_draws (zeros [1, 1])
       1 2 1 unit_model 0 1 (Some 3) = Inr (M, [(Fin (- 1), Fin (- 1))])" by blast
  from C7_step_budget_and_early_stop [OF run]
  have "length [(Fin (- 1), Fin (- 1))] \<le> (case Some 3 of None \<Rightarrow> 3000 | Some k \<Rightarrow> k) \<and>
     (length [(Fin (- 1), Fin (- 1))] < (case Some 3 of None \<Rightarrow> 3000 | Some k \<Rightarrow> k) \<longrightarrow>
        [(Fin (- 1), Fin (- 1))] \<noteq> [] \<and>
        converged (snd (last [(Fin (- 1), Fin (- 1))])) (fst (last [(Fin (- 1), Fin (- 1))])))"
    by (elim exE conjE) (intro conjI; assumption)
  then have "length [(Fin (- 1), Fin (- 1))] \<le> (3::nat) \<and> converged (Fin (- 1)) (Fin (- 1))"
    by simp
  with run show ?thesis by blast
qed



subsection \<open>Shapes along the search\<close>

lemma bdim_one: "bdim n 1 = Some n"
  by (simp add: bdim_def)

lemma broadcast_last2:
  assumes "broadcast_shapes (xs @ [a, n]) (ys @ [d, 1]) = Some s"
  shows "\<exists>q e. s = q @ [e, n]"
  using assms
  by (auto simp: broadcast_shapes_def bdim_one split: option.splits)

lemma swap_last2_append: "swap_last2 (q @ [e, n]) = q @ [n, e]"
  by (simp add: swap_last2_def nth_append)

lemma fourier_features_rows:
  assumes ff: "fourier_features x W b = Inr feats"
    and x: "shape x = [c, n, d]" and b: "shape b = [c', D, 1]"
  shows "shape feats ! (length (shape feats) - 2) = n"
proof -
  from ff obtain XT WX S q T where
    XT: "matrix_transpose x = Inr XT" and WX: "matmul W XT = Inr WX"
    and S: "tadd WX b = Inr S" and T: "matrix_transpose S = Inr T"
    and feats: "feats = tmap (\<lambda>v. sqrt q * v) (tmap cos T)"
    unfolding fourier_features_def Let_def
    by (simp split: if_splits) (elim ebind_InrE, auto)
  from XT x have sXT: "shape XT = [c, d, n]"
    by (auto simp: matrix_transpose_def swap_last2_def split: if_splits)
  from WX sXT obtain bs a where sWX: "shape WX = bs @ [a, n]"
    by (auto simp: matmul_def Let_def split: if_splits option.splits)
  from S have "broadcast_shapes (shape WX) (shape b) = Some (shape S)"
    by (auto simp: tadd_def split: option.splits)
  then have "broadcast_shapes (bs @ [a, n]) ([c'] @ [D, 1]) = Some (shape S)"
    by (simp add: sWX b)
  from broadcast_last2 [OF this] obtain q' e where sS: "shape S = q' @ [e, n]"
    by (elim exE)
  from T have "shape T = swap_last2 (shape S)"
    by (auto simp: matrix_transpose_def split: if_splits)
  then have "shape T = q' @ [n, e]" by (simp add: sS swap_last2_append)
  then show ?thesis by (simp add: feats tmap_def nth_append)
qed

lemma retry_loop_from_attempt:
  "fst (retry_loop attempt fc k) = Inr r \<Longrightarrow> \<exists>j. attempt j = Inr r"
proof (induction attempt fc k rule: retry_loop.induct)
  case (1 attempt fail_count k)
  show ?case
  proof (cases "attempt k")
    case (Inr r')
    with "1.prems" show ?thesis
      by (subst (asm) retry_loop.simps) (auto split: if_splits)
  next
    case (Inl e)
    show ?thesis
    proof (cases "e = InvalidArgumentError \<and> \<not> 100 \<le> Suc fail_count")
      case True
      with Inl "1.prems" have "fst (retry_loop attempt (Suc fail_count) (Suc k)) = Inr r"
        by (subst (asm) retry_loop.simps) simp
      with "1.IH" [OF Inl] True show ?thesis by simp
    next
      case False
      with Inl "1.prems" show ?thesis
        by (subst (asm) retry_loop.simps) (auto split: if_splits)
    qed
  qed
qed

lemma sample_attempt_bias_shape:
  assumes "sample_attempt linalg_inv X model D dr = Inr (phi, W, b, theta)"
  shows "shape b = [shape X ! 0, D, 1]"
proof -
  from assms obtain r where
    r: "sample_fourier_features X (kernel_of model) D (normal_W dr) (uniform_b dr) = Inr r"
    and 1: "(\<lambda>(phi, W, b).
     ebind (sample_theta_variational linalg_inv phi (q_mu_of model) (q_sqrt_of model) (normal_f dr))
       (\<lambda>theta. Inr (phi, W, b, theta))) r = Inr (phi, W, b, theta)"
    unfolding sample_attempt_def by (erule ebind_InrE)
  obtain p w b' where rr: "r = (p, w, b')" by (cases r) auto
  from 1 have e: "b' = b" unfolding rr by simp (erule ebind_InrE, simp)
  from r [unfolded rr] have "b' = random_uniform [shape X ! 0, D, 1] 0 (2 * pi) (uniform_b dr)"
    unfolding sample_fourier_features_def Let_def
    by (simp split: if_splits) (elim ebind_InrE, simp)
  with e show ?thesis by (auto simp add: random_uniform_def)
qed

lemma sampled_bias_shape:
  assumes "fst (sample_features_weights linalg_inv X model D rng) = Inr (phi, W, b, theta)"
  shows "shape b = [shape X ! 0, D, 1]"
proof -
  from assms have "fst (retry_loop (\<lambda>k. sample_attempt linalg_inv X model D (rng k)) 0 0) =
      Inr (phi, W, b, theta)"
    by (simp add: sample_features_weights_def)
  from retry_loop_from_attempt [OF this] obtain j where
    "sample_attempt linalg_inv X model D (rng j) = Inr (phi, W, b, theta)" by (elim exE)
  then show ?thesis by (rule sample_attempt_bias_shape)
qed

lemma optimize_loop_shape:
  assumes pres: "\<forall>loss s x. shape (snd (opt loss s x)) = shape x"
    and run: "optimize_loop opt loss lo hi r s x prev tr = Inr (xf, t)"
  shows "shape xf = shape x"
  using run
proof (induction r arbitrary: s x prev tr)
  case 0
  then show ?case by simp
next
  case (Suc r)
  obtain s' x' where m: "minimize opt loss lo hi (s, x) = (s', x')" by force
  have sh: "shape x' = shape x"
    using m pres [rule_format, of loss s x]
    by (auto simp: minimize_def clip_by_value_def tmap_def split: prod.splits)
  from Suc.prems m obtain cur where cur: "loss x' = Inr cur"
    by (auto split: sum.splits)
  show ?case
  proof (cases "converged cur prev")
    case True
    with Suc.prems m cur sh show ?thesis by simp
  next
    case False
    with Suc.prems m cur
    have "optimize_loop opt loss lo hi r s' x' cur (tr @ [(prev, cur)]) = Inr (xf, t)" by simp
    from Suc.IH [OF this] sh show ?thesis by simp
  qed
qed

text \<open>
  C8. In every call that returns, let \<open>(phi, W, b, theta)\<close> be the sample drawn and
  \<open>x_star\<close> the candidates the optimization loop ended with. The function values are
  recomputed as \<open>fv = fourier_features(x_star, W, b) @ theta\<close> with the same \<open>W\<close>, \<open>b\<close>
  and \<open>theta\<close>; \<open>fv\<close> has shape \<open>(count, m, 1)\<close>, so \<open>fvals\<close> has shape \<open>(count, m)\<close>.
  When the optimizer's update keeps the shape of the variable, as RMSprop's does,
  \<open>x_star\<close> has shape \<open>(count, n_init, d)\<close>, \<open>m = n_init\<close> and the returned array has
  shape \<open>(count, d)\<close>. For
  every row \<open>c\<close> the returned row is the candidate \<open>x_star[c, j]\<close> whose value is
  maximal in the row, and every candidate before \<open>j\<close> has a strictly smaller value:
  among equal maximal values the lowest index is taken.
\<close>

theorem C8_argmax_selection:
  assumes "sample_maximizers_trace linalg_inv opt s0 rng Ux X count n_init D model min_val max_val
             num_steps = Inr (maximizers, trace)"
  shows "\<exists>Xt phi W b theta prev x_star feats fv m.
     tile (expand_dims_first X) [count, 1, 1] = Inr Xt \<and>
     fst (sample_features_weights linalg_inv Xt model D rng) = Inr (phi, W, b, theta) \<and>
     optimize_loop opt (construct_maximizer_objective W b theta) min_val max_val
       (case num_steps of None \<Rightarrow> 3000 | Some k \<Rightarrow> k) s0
       (random_uniform [count, n_init, shape X ! 1] min_val max_val Ux) prev [] = Inr (x_star, trace) \<and>
     fourier_features x_star W b = Inr feats \<and> matmul feats theta = Inr fv \<and>
     shape fv = [count, m, 1] \<and> 0 < m \<and>
     shape maximizers = count # drop 2 (shape x_star) \<and>
     ((\<forall>loss s x. shape (snd (opt loss s x)) = shape x) \<longrightarrow>
        shape x_star = [count, n_init, shape X ! 1] \<and> m = n_init \<and>
        shape maximizers = [count, shape X ! 1]) \<and>
     (\<forall>c<count. \<exists>j<m.
        (\<forall>i<m. item fv [c, i, 0] \<le> item fv [c, j, 0]) \<and>
        (\<forall>i<j. item fv [c, i, 0] < item fv [c, j, 0]) \<and>
        (\<forall>rest. item maximizers (c # rest) = item x_star (c # j # rest)))"
proof -
  from assms obtain Xt phi W b theta prev x_star where
    til: "tile (expand_dims_first X) [count, 1, 1] = Inr Xt"
    and smp: "fst (sample_features_weights linalg_inv Xt model D rng) = Inr (phi, W, b, theta)"
    and loop: "optimize_loop opt (construct_maximizer_objective W b theta) min_val max_val
       (case num_steps of None \<Rightarrow> default_num_steps | Some k \<Rightarrow> k) s0
       (random_uniform [count, n_init, shape X ! 1] min_val max_val Ux) prev [] = Inr (x_star, trace)"
    and sel: "select_maximizers x_star W b theta count = Inr maximizers"
    by (rule sample_maximizers_trace_InrE)
  have d: "(case num_steps of None \<Rightarrow> default_num_steps | Some k \<Rightarrow> k) =
      (case num_steps of None \<Rightarrow> 3000 | Some k \<Rightarrow> k)"
    by (cases num_steps) (simp_all add: default_num_steps_def)
  from select_maximizers_Inr [OF sel] obtain feats fv m where
    f: "fourier_features x_star W b = Inr feats" "matmul feats theta = Inr fv"
      "shape fv = [count, m, 1]" "0 < m" "shape maximizers = count # drop 2 (shape x_star)"
    and best: "\<forall>c<count. \<exists>j<m.
        (\<forall>i<m. item fv [c, i, 0] \<le> item fv [c, j, 0]) \<and>
        (\<forall>i<j. item fv [c, i, 0] < item fv [c, j, 0]) \<and>
        (\<forall>rest. item maximizers (c # rest) = item x_star (c # j # rest))"
    by (elim exE conjE)
  have sh: "shape x_star = [count, n_init, shape X ! 1] \<and> m = n_init \<and>
        shape maximizers = [count, shape X ! 1]"
    if pres: "\<forall>loss s x. shape (snd (opt loss s x)) = shape x"
  proof -
    from optimize_loop_shape [OF pres loop]
    have sx: "shape x_star = [count, n_init, shape X ! 1]"
      by (simp add: random_uniform_def)
    note sb = sampled_bias_shape [OF smp]
    from fourier_features_rows [OF f(1) sx sb]
    have "shape feats ! (length (shape feats) - 2) = n_init" .
    with matmul_rows [OF f(2)] f(3) have "m = n_init" by simp
    with f(5) sx show ?thesis by simp
  qed
  show ?thesis
    apply (rule exI [of _ Xt], rule exI [of _ phi], rule exI [of _ W], rule exI [of _ b],
        rule exI [of _ theta], rule exI [of _ prev], rule exI [of _ x_star], rule exI [of _ feats],
        rule exI [of _ fv], rule exI [of _ m])
    apply (intro conjI)
             apply (rule til)
            apply (rule smp)
           apply (rule loop [unfolded d])
          apply (rule f(1))
         apply (rule f(2))
        apply (rule f(3))
       apply (rule f(4))
      apply (rule f(5))
     apply (rule impI, erule sh)
    apply (rule best)
    done
qed

theorem C8_argmax_selection_witness:
  "\<exists>M. sample_maximizers_trace inv_1x1 idle_optimizer () (\<lambda>k. zero_draws) quarter_draws (zeros [1, 1])
       1 2 1 unit_model 0 1 (Some 3) = Inr (M, [(Fin (- 1), Fin (- 1))]) \<and>
     item M [0, 0] = 1 / 4"
proof -
  from example_run obtain M where
    run: "sample_maximizers_trace inv_1x1 idle_optimizer () (\<lambda>k. zero_draws) quarter_draws (zeros [1, 1])
       1 2 1 unit_model 0 1 (Some 3) = Inr (M, [(Fin (- 1), Fin (- 1))])" by blast
  have sx: "shape (zeros [1, 1]) ! 1 = 1" by (simp add: zeros_def full_def)
  from C8_argmax_selection [OF run] obtain Xt phi W b theta prev x_star feats fv m where
    til: "tile (expand_dims_first (zeros [1, 1])) [1, 1, 1] = Inr Xt"
    and smp: "fst (sample_features_weights inv_1x1 Xt unit_model 1 (\<lambda>k. zero_draws)) =
       Inr (phi, W, b, theta)"
    and loop: "optimize_loop idle_optimizer (construct_maximizer_objective W b theta) 0 1
       (case Some 3 of None \<Rightarrow> 3000 | Some k \<Rightarrow> k) ()
       (random_uniform [1, 2, shape (zeros [1, 1]) ! 1] 0 1 quarter_draws) prev [] =
       Inr (x_star, [(Fin (- 1), Fin (- 1))])"
    and feats: "fourier_features x_star W b = Inr feats"
    and fv: "matmul feats theta = Inr fv"
    and sfv: "shape fv = [1, m, 1]"
    and best: "\<forall>c<1. \<exists>j<m.
        (\<forall>i<m. item fv [c, i, 0] \<le> item fv [c, j, 0]) \<and>
        (\<forall>i<j. item fv [c, i, 0] < item fv [c, j, 0]) \<and>
        (\<forall>rest. item M (c # rest) = item x_star (c # j # rest))"
    by (elim exE conjE) (rule that; assumption)
  from til have Xt: "Xt = zeros [1, 1, 1]" by (auto simp only: example_tile sum.inject)
  from smp have sample: "W = zeros [1, 1, 1]" "b = zeros [1, 1, 1]"
    "theta = full [1, 1, 1] (sqrt 2 / 2)"
    by (auto simp only: Xt example_sample fst_conv sum.inject prod.inject)
  have prev: "prev = Fin (- 1)"
    using optimize_loop_trace [OF loop] by simp
  have three: "(case Some 3 of None \<Rightarrow> 3000 | Some k \<Rightarrow> k) = (3::nat)" by simp
  from loop have x: "x_star = clip_by_value (random_uniform [1, 2, 1] 0 1 quarter_draws) 0 1"
    by (auto simp only: sample sx three prev example_loop sum.inject prod.inject)
  from feats have "feats = full [1, 2, 1] (sqrt 2)"
    by (auto simp only: x sample example_features [OF example_shapes(2)] sum.inject)
  with fv have fvv: "fv = full [1, 2, 1] 1"
    by (auto simp only: sample example_fvals sum.inject)
  from best obtain j where j: "\<forall>i<j. item fv [0, i, 0] < item fv [0, j, 0]"
    "\<forall>rest. item M (0 # rest) = item x_star (0 # j # rest)" by auto
  have "j = 0"
  proof (rule ccontr)
    assume "j \<noteq> 0"
    then have "0 < j" by simp
    with j(1) have "item fv [0, 0, 0] < item fv [0, j, 0]" by blast
    then show False by (simp add: fvv full_def)
  qed
  with j(2) have "item M [0, 0] = item x_star [0, 0, 0]" by simp
  also have "\<dots> = 1 / 4"
    by (simp add: x clip_by_value_def tmap_def random_uniform_def quarter_draws_def)
  finally show ?thesis using run by blast
qed


subsection \<open>The objective helpers\<close>

lemma argmin_upto_le: "argmin_upto f k \<le> k"
  by (induction k) (auto simp: Let_def)

lemma argmin_upto_min: "i \<le> k \<Longrightarrow> f (argmin_upto f k) \<le> f i"
proof (induction k)
  case 0
  then show ?case by simp
next
  case (Suc k)
  then show ?case
    by (cases "i = Suc k") (auto simp: Let_def intro: order_trans less_imp_le)
qed

text \<open>
  The negated values: for every objective that evaluates a point function and every \<open>x\<close>
  of shape \<open>(..., num_choices, input_dims)\<close>, \<open>objective_get_f_neg\<close> returns the negated
  values with a trailing axis of size 1.
\<close>

lemma objective_get_f_neg_value:
  assumes "shape x \<noteq> []"
  shows "\<exists>R. objective_get_f_neg x (lift_objective f) = Inr R \<and>
           shape R = butlast (shape x) @ [1] \<and>
           (\<forall>idx. item R (idx @ [0]) = - f (point_at x idx))"
  using assms
  by (simp add: objective_get_f_neg_def lift_objective_def tmap_def expand_dims_last_def)

text \<open>
  With exactly one leading axis, \<open>x\<close> of shape \<open>(q, num_choices, input_dims)\<close>,
  \<open>objective_get_y\<close> returns for each query a candidate of lowest objective value.
\<close>

lemma objective_get_y_rank3:
  assumes s: "shape x = [q, c, d]" and c: "0 < c"
  shows "\<exists>R. objective_get_y x (lift_objective f) = Inr R \<and> shape R = [q, d] \<and>
           (\<forall>i<q. \<exists>j<c. (\<forall>k<c. f (point_at x [i, j]) \<le> f (point_at x [i, k])) \<and>
              (\<forall>l<d. item R [i, l] = item x [i, j, l]))"
proof -
  let ?ev = "\<lparr>shape = [q, c], item = (\<lambda>idx. f (point_at x idx))\<rparr>"
  have ev: "lift_objective f x = Inr ?ev" using s by (simp add: lift_objective_def)
  define J where "J i = argmin_upto (\<lambda>j. f (point_at x [i, j])) (c - 1)" for i
  let ?am = "\<lparr>shape = [q], item = (\<lambda>idx. int (J (hd idx)))\<rparr>"
  have na: "normalize_axis 1 2 = Some 1" "normalize_axis (- 2) 3 = Some 1"
    by (simp_all add: normalize_axis_def)
  have am: "np_argmin ?ev 1 = Inr \<lparr>shape = [q],
      item = (\<lambda>idx. int (argmin_upto (\<lambda>j. f (point_at x (insert_at 1 j idx))) (c - 1)))\<rparr>"
    using c by (simp add: np_argmin_def normalize_axis_def remove_at_def)
  let ?am = "\<lparr>shape = [q],
      item = (\<lambda>idx. int (argmin_upto (\<lambda>j. f (point_at x (insert_at 1 j idx))) (c - 1)))\<rparr>"
  have amv: "item ?am [i] = int (J i)" for i by (simp add: J_def insert_at_def)
  obtain ind where ind: "newaxis_after_first ?am = Inr ind" "shape ind = [q, 1, 1]"
    "\<And>i a b. item ind [i, a, b] = int (J i)"
    by (simp add: newaxis_after_first_def J_def insert_at_def)
  have Jc: "J i < c" for i
    using c argmin_upto_le [of "\<lambda>j. f (point_at x [i, j])" "c - 1"] by (simp add: J_def)
  have three: "[0..<3] = [0, Suc 0, 2]" by (simp add: upt_rec eval_nat_numeral)
  have bq: "bdim q q = Some q" "bdim d (Suc 0) = Some d" by simp_all
  have tk: "\<exists>t. take_along_axis x ind (- 2) = Inr t \<and> shape t = [q, 1, d] \<and>
      (\<forall>i<q. \<forall>l<d. item t [i, 0, l] = item x [i, J i, l])"
    using s ind(2) Jc
    by (simp add: take_along_axis_def normalize_axis_def three Let_def bindex_def ind(3))
  then obtain t where t: "take_along_axis x ind (- 2) = Inr t" "shape t = [q, 1, d]"
    "\<forall>i<q. \<forall>l<d. item t [i, 0, l] = item x [i, J i, l]" by (elim exE conjE)
  have sqz: "\<exists>R. np_squeeze t (- 2) = Inr R \<and> shape R = [q, d] \<and>
      (\<forall>i l. item R [i, l] = item t [i, 0, l])"
    using t(2) by (simp add: np_squeeze_def normalize_axis_def remove_at_def insert_at_def)
  then obtain R where R: "np_squeeze t (- 2) = Inr R" "shape R = [q, d]"
    "\<forall>i l. item R [i, l] = item t [i, 0, l]" by (elim exE conjE)
  have run: "objective_get_y x (lift_objective f) = Inr R"
    unfolding objective_get_y_def
    by (simp only: ev am ind(1) t(1) R(1) ebind_Inr)
  have "\<exists>j<c. (\<forall>k<c. f (point_at x [i, j]) \<le> f (point_at x [i, k])) \<and>
              (\<forall>l<d. item R [i, l] = item x [i, j, l])" if "i < q" for i
  proof (intro exI [of _ "J i"] conjI allI impI)
    show "J i < c" by (rule Jc)
    show "f (point_at x [i, J i]) \<le> f (point_at x [i, k])" if "k < c" for k
      unfolding J_def using that by (intro argmin_upto_min [of k "c - 1" "\<lambda>j. f (point_at x [i, j])"]) simp
    show "item R [i, l] = item x [i, J i, l]" if "l < d" for l
      using R(3) t(3) \<open>i < q\<close> that by simp
  qed
  with run R(2) show ?thesis by blast
qed


lemma camel_values: "six_hump_camel_point 0 0 = 0" "six_hump_camel_point 1 0 = 67 / 30"
  by (simp_all add: six_hump_camel_point_def)


lemma objective_get_y_no_leading_axis:
  assumes "shape x = [c, d]"
  shows "objective_get_y x (lift_objective f) = Inl AxisError"
  using assms
  by (simp add: objective_get_y_def lift_objective_def np_argmin_def normalize_axis_def)

text \<open>
  C9 fails on the code for more than one leading axis, although the docstring of
  \<open>objective_get_y\<close> gives the shapes \<open>(..., num_choices, input_dims)\<close> and
  \<open>(..., input_dims)\<close>: \<open>np.argmin(evals, axis=1)\<close> reduces the second axis, not the
  axis of the choices. For \<open>x = [[[[1, 0], [0, 0]]]]\<close> of shape \<open>(1, 1, 2, 2)\<close> and the
  six-hump camel function the helper returns \<open>[[[1, 0]]]\<close>, the first candidate, of
  value \<open>67/30\<close>, although the second candidate \<open>[0, 0]\<close> has the lower value \<open>0\<close>.
\<close>

theorem C9_two_leading_axes_wrong_candidate:
  "\<exists>R. objective_get_y (np_array [1, 1, 2, 2] [1, 0, 0, 0]) six_hump_camel = Inr R \<and>
     shape R = [1, 1, 2] \<and> item R [0, 0, 0] = 1 \<and> item R [0, 0, 1] = 0 \<and>
     six_hump_camel_point 0 0 < six_hump_camel_point 1 0"
proof -
  let ?x = "np_array [1, 1, 2, 2] [1, 0, 0, 0 :: real]"
  have sx: "shape ?x = [1, 1, 2, 2]" by (simp add: np_array_def)
  obtain ev where ev: "six_hump_camel ?x = Inr ev" "shape ev = [1, 1, 2]"
    by (simp add: six_hump_camel_def np_array_def)
  obtain am where am: "np_argmin ev 1 = Inr am" "shape am = [1, 2]" "\<And>idx. item am idx = 0"
    using ev(2) by (simp add: np_argmin_def normalize_axis_def remove_at_def)
  obtain ind where ind: "newaxis_after_first am = Inr ind" "shape ind = [1, 1, 1, 2]"
    "\<And>idx. item ind idx = 0"
    using am(2,3) by (simp add: newaxis_after_first_def)
  have four: "[0..<4] = [0, Suc 0, 2, 3]" by (simp add: upt_rec eval_nat_numeral)
  have "\<exists>t. take_along_axis ?x ind (- 2) = Inr t \<and> shape t = [1, 1, 1, 2] \<and>
      (\<forall>l<2. item t [0, 0, 0, l] = item ?x [0, 0, 0, l])"
    using sx ind(2)
    by (simp add: take_along_axis_def normalize_axis_def four Let_def bindex_def ind(3) bdim_def)
  then obtain t where t: "take_along_axis ?x ind (- 2) = Inr t" "shape t = [1, 1, 1, 2]"
    "\<forall>l<2. item t [0, 0, 0, l] = item ?x [0, 0, 0, l]" by (elim exE conjE)
  have "\<exists>R. np_squeeze t (- 2) = Inr R \<and> shape R = [1, 1, 2] \<and>
      (\<forall>l. item R [0, 0, l] = item t [0, 0, 0, l])"
    using t(2) by (simp add: np_squeeze_def normalize_axis_def remove_at_def insert_at_def)
  then obtain R where R: "np_squeeze t (- 2) = Inr R" "shape R = [1, 1, 2]"
    "\<forall>l. item R [0, 0, l] = item t [0, 0, 0, l]" by (elim exE conjE)
  have run: "objective_get_y ?x six_hump_camel = Inr R"
    unfolding objective_get_y_def
    by (simp only: ev(1) am(1) ind(1) t(1) R(1) ebind_Inr)
  have v: "item R [0, 0, 0] = 1" "item R [0, 0, 1] = 0"
    using R(3) t(3) by (simp_all add: np_array_def)
  show ?thesis using run R(2) v camel_values by (intro exI [of _ R]) simp
qed


subsection \<open>Linear algebra: a left inverse of a square matrix is a right inverse\<close>

lemma homogeneous_solution:
  fixes a :: "nat \<Rightarrow> 's \<Rightarrow> real"
  shows "finite S \<Longrightarrow> n < card S \<Longrightarrow>
    \<exists>x. (\<exists>s\<in>S. x s \<noteq> 0) \<and> (\<forall>i<n. (\<Sum>s\<in>S. a i s * x s) = 0)"
proof (induction n arbitrary: S a)
  case 0
  then have "S \<noteq> {}" by auto
  then obtain s where "s \<in> S" by blast
  then have "\<exists>s\<in>S. (\<lambda>_. 1::real) s \<noteq> 0" by auto
  then show ?case by (intro exI [of _ "\<lambda>_. 1"]) simp
next
  case (Suc n)
  show ?case
  proof (cases "\<forall>s\<in>S. a n s = 0")
    case True
    from Suc.prems have "n < card S" by simp
    from Suc.IH [OF Suc.prems(1) this, of a] obtain x where
      x: "\<exists>s\<in>S. x s \<noteq> 0" "\<forall>i<n. (\<Sum>s\<in>S. a i s * x s) = 0" by blast
    have "(\<Sum>s\<in>S. a n s * x s) = 0" using True by (intro sum.neutral) simp
    with x(2) have "\<forall>i<Suc n. (\<Sum>s\<in>S. a i s * x s) = 0" by (simp add: less_Suc_eq)
    with x(1) show ?thesis by blast
  next
    case False
    then obtain j where j: "j \<in> S" "a n j \<noteq> 0" by blast
    let ?S' = "S - {j}"
    have fin': "finite ?S'" using Suc.prems(1) by simp
    have card': "n < card ?S'" using Suc.prems j(1) by simp
    define a' where "a' i s = a i s - a i j * a n s / a n j" for i s
    from Suc.IH [OF fin' card', of a'] obtain x' where
      nz: "\<exists>s\<in>?S'. x' s \<noteq> 0" and z: "\<forall>i<n. (\<Sum>s\<in>?S'. a' i s * x' s) = 0" by blast
    define t where "t = (\<Sum>s\<in>?S'. a n s * x' s)"
    define x where "x s = (if s = j then - t / a n j else x' s)" for s
    have split: "(\<Sum>s\<in>S. a i s * x s) = a i j * (- t / a n j) + (\<Sum>s\<in>?S'. a i s * x' s)" for i
    proof -
      have "(\<Sum>s\<in>S. a i s * x s) = a i j * x j + (\<Sum>s\<in>?S'. a i s * x s)"
        using Suc.prems(1) j(1) by (rule sum.remove)
      also have "(\<Sum>s\<in>?S'. a i s * x s) = (\<Sum>s\<in>?S'. a i s * x' s)"
        by (intro sum.cong) (auto simp: x_def)
      finally show ?thesis by (simp add: x_def)
    qed
    have a': "(\<Sum>s\<in>?S'. a' i s * x' s) = (\<Sum>s\<in>?S'. a i s * x' s) - a i j / a n j * t" for i
    proof -
      have "(\<Sum>s\<in>?S'. a' i s * x' s) =
          (\<Sum>s\<in>?S'. a i s * x' s - a i j / a n j * (a n s * x' s))"
        by (intro sum.cong) (auto simp: a'_def algebra_simps diff_divide_distrib)
      also have "\<dots> = (\<Sum>s\<in>?S'. a i s * x' s) - (\<Sum>s\<in>?S'. a i j / a n j * (a n s * x' s))"
        by (rule sum_subtractf)
      also have "(\<Sum>s\<in>?S'. a i j / a n j * (a n s * x' s)) = a i j / a n j * t"
        by (simp add: t_def sum_distrib_left)
      finally show ?thesis .
    qed
    have "(\<Sum>s\<in>S. a i s * x s) = 0" if "i < Suc n" for i
    proof (cases "i = n")
      case True
      then show ?thesis using j(2) by (simp add: split t_def)
    next
      case False
      with that have "i < n" by simp
      with z have "(\<Sum>s\<in>?S'. a' i s * x' s) = 0" by simp
      then show ?thesis by (simp add: split a')
    qed
    moreover from nz obtain s where "s \<in> ?S'" "x' s \<noteq> 0" by blast
    then have "s \<in> S" "x s \<noteq> 0" by (auto simp: x_def)
    ultimately show ?thesis by blast
  qed
qed

lemma sum_delta_left:
  fixes g :: "nat \<Rightarrow> real"
  assumes "j < n"
  shows "(\<Sum>i<n. (if j = i then 1 else 0) * g i) = g j"
proof -
  have "(\<Sum>i<n. (if j = i then 1 else 0) * g i) = (\<Sum>i\<in>{..<n}. if j = i then g i else 0)"
    by (intro sum.cong) auto
  also have "\<dots> = g j" using assms by (simp add: sum.delta')
  finally show ?thesis .
qed

lemma sum_delta_right:
  fixes g :: "nat \<Rightarrow> real"
  assumes "j < n"
  shows "(\<Sum>i<n. g i * (if i = j then 1 else 0)) = g j"
proof -
  have "(\<Sum>i<n. g i * (if i = j then 1 else 0)) = (\<Sum>i\<in>{..<n}. if i = j then g i else 0)"
    by (intro sum.cong) auto
  also have "\<dots> = g j" using assms by (simp add: sum.delta)
  finally show ?thesis .
qed

lemma matrix_assoc_vec:
  fixes A :: "nat \<Rightarrow> nat \<Rightarrow> real"
  shows "(\<Sum>k<m. (\<Sum>i<n. A j i * B i k) * x k) = (\<Sum>i<n. A j i * (\<Sum>k<m. B i k * x k))"
proof -
  have "(\<Sum>k<m. (\<Sum>i<n. A j i * B i k) * x k) = (\<Sum>k<m. \<Sum>i<n. A j i * B i k * x k)"
    by (simp add: sum_distrib_right)
  also have "\<dots> = (\<Sum>i<n. \<Sum>k<m. A j i * B i k * x k)" by (rule sum.swap)
  also have "\<dots> = (\<Sum>i<n. A j i * (\<Sum>k<m. B i k * x k))"
    by (simp add: sum_distrib_left mult.assoc)
  finally show ?thesis .
qed

lemma left_inverse_injective:
  fixes L B :: "nat \<Rightarrow> nat \<Rightarrow> real"
  assumes LB: "\<forall>i<n. \<forall>j<n. (\<Sum>k<n. L i k * B k j) = (if i = j then 1 else 0)"
    and z: "\<forall>i<n. (\<Sum>k<n. B i k * x k) = 0"
    and j: "j < n"
  shows "x j = 0"
proof -
  have "x j = (\<Sum>k<n. (if j = k then 1 else 0) * x k)" using j by (simp add: sum_delta_left)
  also have "\<dots> = (\<Sum>k<n. (\<Sum>i<n. L j i * B i k) * x k)"
    using LB j by (intro sum.cong) auto
  also have "\<dots> = (\<Sum>i<n. L j i * (\<Sum>k<n. B i k * x k))" by (rule matrix_assoc_vec)
  also have "\<dots> = 0" using z by (intro sum.neutral) simp
  finally show ?thesis .
qed

lemma left_inverse_surjective:
  fixes L B :: "nat \<Rightarrow> nat \<Rightarrow> real"
  assumes LB: "\<forall>i<n. \<forall>j<n. (\<Sum>k<n. L i k * B k j) = (if i = j then 1 else 0)"
  shows "\<exists>y. \<forall>i<n. (\<Sum>k<n. B i k * y k) = v i"
proof -
  define a where "a i s = (if s < n then B i s else v i)" for i s
  have "finite {..n}" "n < card {..n}" by simp_all
  from homogeneous_solution [OF this, of a] obtain x where
    nz: "\<exists>s\<in>{..n}. x s \<noteq> 0" and z: "\<forall>i<n. (\<Sum>s\<in>{..n}. a i s * x s) = 0" by blast
  have split: "(\<Sum>s\<in>{..n}. a i s * x s) = (\<Sum>k<n. B i k * x k) + v i * x n" for i
  proof -
    have "{..n} = insert n {..<n}" by auto
    then have "(\<Sum>s\<in>{..n}. a i s * x s) = a i n * x n + (\<Sum>s<n. a i s * x s)" by simp
    also have "(\<Sum>s<n. a i s * x s) = (\<Sum>k<n. B i k * x k)"
      by (intro sum.cong) (auto simp: a_def)
    finally show ?thesis by (simp add: a_def)
  qed
  have xn: "x n \<noteq> 0"
  proof
    assume x0: "x n = 0"
    then have "\<forall>i<n. (\<Sum>k<n. B i k * x k) = 0" using z split by simp
    then have "\<forall>j<n. x j = 0" using left_inverse_injective [OF LB] by blast
    with x0 have "\<forall>s\<in>{..n}. x s = 0" by (auto simp: le_less)
    with nz show False by blast
  qed
  define y where "y k = - x k / x n" for k
  have "(\<Sum>k<n. B i k * y k) = v i" if "i < n" for i
  proof -
    have "(\<Sum>k<n. B i k * y k) = - (\<Sum>k<n. B i k * x k) / x n"
      by (simp add: y_def sum_divide_distrib sum_negf)
    also have "(\<Sum>k<n. B i k * x k) = - (v i * x n)"
      using z that split [of i] by simp
    finally show ?thesis using xn by simp
  qed
  then show ?thesis by blast
qed

lemma left_inverse_is_right_inverse:
  fixes L B :: "nat \<Rightarrow> nat \<Rightarrow> real"
  assumes LB: "\<forall>i<n. \<forall>j<n. (\<Sum>k<n. L i k * B k j) = (if i = j then 1 else 0)"
    and i: "i < n" and j: "j < n"
  shows "(\<Sum>k<n. B i k * L k j) = (if i = j then 1 else 0)"
proof -
  from left_inverse_surjective [OF LB, of "\<lambda>i. if i = j then 1 else 0"] obtain y where
    y: "\<forall>i<n. (\<Sum>k<n. B i k * y k) = (if i = j then 1 else 0)" by blast
  have yk: "y k = L k j" if "k < n" for k
  proof -
    have "y k = (\<Sum>l<n. (if k = l then 1 else 0) * y l)" using that by (simp add: sum_delta_left)
    also have "\<dots> = (\<Sum>l<n. (\<Sum>i<n. L k i * B i l) * y l)"
      using LB that by (intro sum.cong) auto
    also have "\<dots> = (\<Sum>i<n. L k i * (\<Sum>l<n. B i l * y l))" by (rule matrix_assoc_vec)
    also have "\<dots> = (\<Sum>i<n. L k i * (if i = j then 1 else 0))"
      using y by (intro sum.cong) auto
    also have "\<dots> = L k j" using j by (rule sum_delta_right)
    finally show ?thesis .
  qed
  have "(\<Sum>k<n. B i k * L k j) = (\<Sum>k<n. B i k * y k)"
    using yk by (intro sum.cong) auto
  with y i show ?thesis by simp
qed

lemma interpolation_under:
  fixes P :: "nat \<Rightarrow> nat \<Rightarrow> real"
  assumes G: "\<And>a k. G a k = (\<Sum>j<D. P a j * P k j)"
    and inv: "\<forall>a<n. \<forall>i<n. (\<Sum>k<n. G a k * Gi k i) = (if a = i then 1 else 0)"
    and th: "\<And>j. j < D \<Longrightarrow> theta j = (\<Sum>i<n. (\<Sum>k<n. P k j * Gi k i) * f i)"
    and a: "a < n"
  shows "(\<Sum>j<D. P a j * theta j) = f a"
proof -
  have inner: "(\<Sum>j<D. P a j * (\<Sum>k<n. P k j * Gi k i)) =
      (\<Sum>k<n. (\<Sum>j<D. P a j * P k j) * Gi k i)" for i
    by (rule matrix_assoc_vec [where m = n and n = D and A = P and j = a
          and B = "\<lambda>j k. P k j" and x = "\<lambda>k. Gi k i", symmetric])
  have "(\<Sum>j<D. P a j * theta j) = (\<Sum>j<D. P a j * (\<Sum>i<n. (\<Sum>k<n. P k j * Gi k i) * f i))"
    using th by (intro sum.cong) auto
  also have "\<dots> = (\<Sum>i<n. (\<Sum>j<D. P a j * (\<Sum>k<n. P k j * Gi k i)) * f i)"
    by (rule matrix_assoc_vec [symmetric])
  also have "\<dots> = (\<Sum>i<n. (\<Sum>k<n. (\<Sum>j<D. P a j * P k j) * Gi k i) * f i)"
    by (simp only: inner)
  also have "\<dots> = (\<Sum>i<n. (if a = i then 1 else 0) * f i)"
    using inv a by (intro sum.cong) (auto simp: G)
  also have "\<dots> = f a" using a by (rule sum_delta_left)
  finally show ?thesis .
qed

lemma interpolation_square:
  fixes P :: "nat \<Rightarrow> nat \<Rightarrow> real"
  assumes G: "\<And>k l. G k l = (\<Sum>i<n. P i k * P i l)"
    and inv: "\<forall>j<n. \<forall>l<n. (\<Sum>k<n. Gi j k * G k l) = (if j = l then 1 else 0)"
    and th: "\<And>j. j < n \<Longrightarrow> theta j = (\<Sum>i<n. (\<Sum>k<n. Gi j k * P i k) * f i)"
    and a: "a < n"
  shows "(\<Sum>j<n. P a j * theta j) = f a"
proof -
  define L where "L j i = (\<Sum>k<n. Gi j k * P i k)" for j i
  have LP: "\<forall>j<n. \<forall>l<n. (\<Sum>i<n. L j i * P i l) = (if j = l then 1 else 0)"
  proof (intro allI impI)
    fix j l assume "j < n" "l < n"
    have "(\<Sum>i<n. L j i * P i l) = (\<Sum>i<n. (\<Sum>k<n. Gi j k * P i k) * P i l)"
      by (simp add: L_def)
    also have "\<dots> = (\<Sum>k<n. Gi j k * (\<Sum>i<n. P i k * P i l))"
      by (rule matrix_assoc_vec [where m = n and n = n and A = Gi and j = j
            and B = "\<lambda>k i. P i k" and x = "\<lambda>i. P i l"])
    also have "\<dots> = (\<Sum>k<n. Gi j k * G k l)" by (simp add: G)
    also have "\<dots> = (if j = l then 1 else 0)" using inv \<open>j < n\<close> \<open>l < n\<close> by simp
    finally show "(\<Sum>i<n. L j i * P i l) = (if j = l then 1 else 0)" .
  qed
  have PL: "(\<Sum>j<n. P a j * L j i) = (if a = i then 1 else 0)" if "i < n" for i
    using left_inverse_is_right_inverse [OF LP a that] .
  have "(\<Sum>j<n. P a j * theta j) = (\<Sum>j<n. P a j * (\<Sum>i<n. L j i * f i))"
    using th by (intro sum.cong) (auto simp: L_def)
  also have "\<dots> = (\<Sum>i<n. (\<Sum>j<n. P a j * L j i) * f i)"
    by (rule matrix_assoc_vec [symmetric])
  also have "\<dots> = (\<Sum>i<n. (if a = i then 1 else 0) * f i)"
    using PL by (intro sum.cong) auto
  also have "\<dots> = f a" using a by (rule sum_delta_left)
  finally show ?thesis .
qed



subsection \<open>Posterior consistency\<close>

lemma sample_theta_variational_InrE:
  assumes run: "sample_theta_variational linalg_inv phi q_mu q_sqrt Zn = Inr theta"
    and phi: "shape phi = [count, n, D]"
  obtains phiT G Gi where "matrix_transpose phi = Inr phiT"
    "matmul (if D \<le> n then phiT else phi) (if D \<le> n then phi else phiT) = Inr G"
    "linalg_inv G = Inr Gi"
proof -
  from run phi obtain phiT tm where T: "matrix_transpose phi = Inr phiT"
    and tm: "(if n \<ge> D
               then ebind (matmul phiT phi) (\<lambda>G.
                    ebind (linalg_inv G) (\<lambda>Gi. matmul Gi phiT))
               else ebind (matmul phi phiT) (\<lambda>G.
                    ebind (linalg_inv G) (\<lambda>Gi. matmul phiT Gi))) = Inr tm"
    unfolding sample_theta_variational_def Let_def
    by (simp split: if_splits) (elim ebind_InrE, blast)
  show thesis
  proof (cases "D \<le> n")
    case True
    with tm obtain G Gi where "matmul phiT phi = Inr G" "linalg_inv G = Inr Gi"
      by (simp only: if_True) (elim ebind_InrE)
    with True T that show thesis by simp
  next
    case False
    with tm obtain G Gi where "matmul phi phiT = Inr G" "linalg_inv G = Inr Gi"
      by (simp only: if_False) (elim ebind_InrE)
    with False T that show thesis by simp
  qed
qed

lemma inv_1x1_sound: "inv_sound inv_1x1"
  by (auto simp: inv_sound_def is_batch_inverse_def inv_1x1_def split: if_splits)

lemma example_theta_under:
  "\<exists>theta. sample_theta_variational inv_1x1 (full [1, 1, 2] 1) (zeros [1, 1]) (full [1, 1, 1] 1)
     (constant_draws 3) = Inr theta"
proof -
  have two: "{..<2::nat} = {0, 1}" by auto
  show ?thesis by (simp add: eval_defs inv_1x1_def constant_draws_def two)
qed

lemma example_theta_square:
  "\<exists>theta. sample_theta_variational inv_1x1 (full [1, 1, 1] 2) (zeros [1, 1]) (full [1, 1, 1] 1)
     (constant_draws 3) = Inr theta"
  by (simp add: eval_defs inv_1x1_def constant_draws_def)


text \<open>
  C2. Let \<open>phi\<close> have shape \<open>(count, n, D)\<close> with \<open>D \<ge> n\<close>, \<open>q_mu\<close> shape \<open>(n, 1)\<close> and
  \<open>q_sqrt\<close> shape \<open>(1, n, n)\<close>, and let the inversion return only two-sided inverses
  (\<open>inv_sound\<close>). If \<open>sample_theta_variational\<close> returns \<open>theta\<close>, that is, the Gram
  matrix of the selected branch was inverted, then \<open>phi @ theta\<close> has shape
  \<open>(count, n, 1)\<close> and equals \<open>f_sample = q_sqrt @ z + q_mu\<close> entry by entry, in exact
  arithmetic. For \<open>n < D\<close> this uses \<open>(phi @ phi^T) @ Gi = I\<close>; for \<open>n = D\<close> the branch
  \<open>inv(phi^T @ phi) @ phi^T\<close> is taken and the proof uses that a left inverse of a
  square matrix is a right inverse.
\<close>

theorem C2_posterior_consistency:
  assumes phi: "shape phi = [count, n, D]"
    and mu: "shape q_mu = [n, 1]"
    and sq: "shape q_sqrt = [1, n, n]"
    and nD: "n \<le> D"
    and sound: "inv_sound linalg_inv"
    and run: "sample_theta_variational linalg_inv phi q_mu q_sqrt Zn = Inr theta"
  shows "\<exists>r. matmul phi theta = Inr r \<and> shape r = [count, n, 1] \<and>
           (\<forall>c<count. \<forall>i<n. item r [c, i, 0] =
              (\<Sum>l<n. item q_sqrt [0, i, l] * Zn [c, l]) + item q_mu [i, 0])"
proof -
  define f where "f c i = (\<Sum>l<n. item q_sqrt [0, i, l] * Zn [c, l]) + item q_mu [i, 0]" for c i
  from run phi obtain phiT G Gi where T: "matrix_transpose phi = Inr phiT"
    and G: "matmul (if D \<le> n then phiT else phi) (if D \<le> n then phi else phiT) = Inr G"
    and Gi: "linalg_inv G = Inr Gi"
    by (rule sample_theta_variational_InrE)
  from sound Gi have bi: "is_batch_inverse G Gi" by (simp add: inv_sound_def)
  then have sGi: "shape Gi = shape G" by (simp add: is_batch_inverse_def)
  have val: "\<exists>th. sample_theta_variational linalg_inv phi q_mu q_sqrt Zn = Inr th \<and>
      shape th = [count, D, 1] \<and>
      (\<forall>c<count. \<forall>a<n. (\<Sum>j<D. item phi [c, a, j] * item th [c, j, 0]) = f c a)"
  proof (cases "D \<le> n")
    case True
    with nD have e: "D = n" by simp
    from G True have G': "matmul phiT phi = Inr G" by simp
    note gram = gram_over [OF phi T G']
    from theta_over [where linalg_inv = linalg_inv and Zn = Zn, OF phi mu sq T True G' Gi sGi]
    obtain th where
      th: "sample_theta_variational linalg_inv phi q_mu q_sqrt Zn = Inr th"
        "shape th = [count, D, 1]"
        "\<forall>c<count. \<forall>j<D. item th [c, j, 0] =
           (\<Sum>i<n. (\<Sum>k<D. item Gi [c, j, k] * item phi [c, i, k]) * f c i)"
      unfolding f_def by (elim exE conjE)
    have "(\<Sum>j<D. item phi [c, a, j] * item th [c, j, 0]) = f c a" if c: "c < count" and a: "a < n"
      for c a
    proof -
      have inv: "\<forall>j<n. \<forall>l<n. (\<Sum>k<n. item Gi [c, j, k] * item G [c, k, l]) = (if j = l then 1 else 0)"
        using bi c by (simp add: is_batch_inverse_def gram(1) e)
      show ?thesis
        unfolding e
        by (rule interpolation_square [where G = "\<lambda>k l. item G [c, k, l]"
              and Gi = "\<lambda>j k. item Gi [c, j, k]" and P = "\<lambda>i k. item phi [c, i, k]",
              OF _ inv _ a])
          (use th(3) c gram(2) e in auto)
    qed
    with th(1,2) show ?thesis by blast
  next
    case False
    then have lt: "n < D" by simp
    from G False have G': "matmul phi phiT = Inr G" by simp
    note gram = gram_under [OF phi T G']
    from theta_under [where linalg_inv = linalg_inv and Zn = Zn, OF phi mu sq T lt G' Gi sGi]
    obtain th where
      th: "sample_theta_variational linalg_inv phi q_mu q_sqrt Zn = Inr th"
        "shape th = [count, D, 1]"
        "\<forall>c<count. \<forall>j<D. item th [c, j, 0] =
           (\<Sum>i<n. (\<Sum>k<n. item phi [c, k, j] * item Gi [c, k, i]) * f c i)"
      unfolding f_def by (elim exE conjE)
    have "(\<Sum>j<D. item phi [c, a, j] * item th [c, j, 0]) = f c a" if c: "c < count" and a: "a < n"
      for c a
    proof -
      have inv: "\<forall>a<n. \<forall>i<n. (\<Sum>k<n. item G [c, a, k] * item Gi [c, k, i]) = (if a = i then 1 else 0)"
        using bi c by (simp add: is_batch_inverse_def gram(1))
      show ?thesis
        by (rule interpolation_under [where G = "\<lambda>k l. item G [c, k, l]"
              and Gi = "\<lambda>j k. item Gi [c, j, k]" and P = "\<lambda>i k. item phi [c, i, k]",
              OF _ inv _ a])
          (use th(3) c gram(2) in auto)
    qed
    with th(1,2) show ?thesis by blast
  qed
  then obtain th where th: "sample_theta_variational linalg_inv phi q_mu q_sqrt Zn = Inr th"
    "shape th = [count, D, 1]"
    "\<forall>c<count. \<forall>a<n. (\<Sum>j<D. item phi [c, a, j] * item th [c, j, 0]) = f c a"
    by (elim exE conjE)
  from th(1) run have e: "th = theta" by simp
  from matmul_rank3 [OF phi th(2) [unfolded e], of count] obtain r where
    r: "matmul phi theta = Inr r" "shape r = [count, n, 1]"
      "\<forall>a i j. item r [a, i, j] =
         (\<Sum>k<D. item phi [if count = 1 then 0 else a, i, k] *
            item theta [if count = 1 then 0 else a, k, j])"
    by auto
  have "item r [c, i, 0] = f c i" if "c < count" "i < n" for c i
  proof -
    have c0: "(if count = 1 then 0 else c) = c" using that by auto
    have "item r [c, i, 0] = (\<Sum>k<D. item phi [c, i, k] * item theta [c, k, 0])"
      using r(3) by (simp only: c0)
    with th(3) that show ?thesis by (simp add: e)
  qed
  with r(1,2) show ?thesis unfolding f_def by blast
qed


theorem C2_posterior_consistency_witness:
  "(\<exists>theta r. sample_theta_variational inv_1x1 (full [1, 1, 2] 1) (zeros [1, 1]) (full [1, 1, 1] 1)
        (constant_draws 3) = Inr theta \<and>
      matmul (full [1, 1, 2] 1) theta = Inr r \<and> shape r = [1, 1, 1] \<and> item r [0, 0, 0] = 3) \<and>
   (\<exists>theta r. sample_theta_variational inv_1x1 (full [1, 1, 1] 2) (zeros [1, 1]) (full [1, 1, 1] 1)
        (constant_draws 3) = Inr theta \<and>
      matmul (full [1, 1, 1] 2) theta = Inr r \<and> shape r = [1, 1, 1] \<and> item r [0, 0, 0] = 3)"
proof -
  have sm: "shape (zeros [1, 1]) = [1, 1]" and sq: "shape (full [1, 1, 1] (1::real)) = [1, 1, 1]"
    by (simp_all add: zeros_def full_def)
  have s2: "shape (full [1, 1, 2] (1::real)) = [1, 1, 2]" by (simp add: full_def)
  have s1: "shape (full [1, 1, 1] (2::real)) = [1, 1, 1]" by (simp add: full_def)
  have le2: "(1::nat) \<le> 2" and le1: "(1::nat) \<le> 1" by simp_all
  from example_theta_under obtain th2 where
    th2: "sample_theta_variational inv_1x1 (full [1, 1, 2] 1) (zeros [1, 1]) (full [1, 1, 1] 1)
        (constant_draws 3) = Inr th2" by (elim exE)
  have r2: "\<exists>r. matmul (full [1, 1, 2] 1) th2 = Inr r \<and> shape r = [1, 1, 1] \<and> item r [0, 0, 0] = 3"
    using C2_posterior_consistency [OF s2 sm sq le2 inv_1x1_sound th2]
    apply (elim exE conjE)
    subgoal for r
      apply (rule exI [of _ r])
      apply (simp add: full_def zeros_def constant_draws_def)
      done
    done
  from example_theta_square obtain th1 where
    th1: "sample_theta_variational inv_1x1 (full [1, 1, 1] 2) (zeros [1, 1]) (full [1, 1, 1] 1)
        (constant_draws 3) = Inr th1" by (elim exE)
  have r1: "\<exists>r. matmul (full [1, 1, 1] 2) th1 = Inr r \<and> shape r = [1, 1, 1] \<and> item r [0, 0, 0] = 3"
    using C2_posterior_consistency [OF s1 sm sq le1 inv_1x1_sound th1]
    apply (elim exE conjE)
    subgoal for r
      apply (rule exI [of _ r])
      apply (simp add: full_def zeros_def constant_draws_def)
      done
    done
  from th2 r2 th1 r1 show ?thesis by blast
qed


end
